theory Spec2Isabelle
  imports Complex_Main "HOL-Library.Word"
begin

unbundle bit_operations_syntax

section \<open>The self-tuning memcpy dispatcher of utils/memcpy-bench/memcpy-bench.cpp\<close>

text \<open>
  The model follows \<^verbatim>\<open>VariantWithStatistics\<close>, \<^verbatim>\<open>MultipleVariantsWithStatistics\<close> and
  \<^verbatim>\<open>memcpy_selftuned\<close> for one thread: every \<^verbatim>\<open>std::atomic<size_t>\<close> is a 64-bit word
  whose arithmetic wraps, the two \<^verbatim>\<open>rdtsc()\<close> readings of an exploration are inputs of the
  call (32-bit words), and the copy kernels are opaque: a call reports which kernel it invoked,
  the bytes they move are not modelled.
\<close>

type_synonym size_t = "64 word"
type_synonym UInt32 = "32 word"

subsection \<open>Kernels\<close>

text \<open>
  The values of \<^verbatim>\<open>memcpy_type\<close> that the dispatcher stores: the sixteen functions of the
  \<^verbatim>\<open>variants\<close> array. The glibc kernels \<^verbatim>\<open>__memcpy_*\<close> carry the prefix \<open>glibc\<close> here.
\<close>

datatype memcpy_type =
    memcpy
  | memcpy_erms
  | memcpy_fast_sse
  | memcpy_fast_avx
  | glibc_memcpy_avx_unaligned
  | glibc_memcpy_avx_unaligned_erms
  | glibc_memcpy_ssse3
  | glibc_memcpy_ssse3_back
  | memcpy_trivial
  | memcpy_medium_avx_forward2
  | memcpySSE2
  | memcpySSE2Unrolled2
  | memcpySSE2Unrolled4
  | memcpySSE2Unrolled8
  | memcpy_medium_sse_forward
  | memcpy_medium_avx_forward

subsection \<open>Doubles\<close>

text \<open>
  \<^verbatim>\<open>score()\<close> computes in \<^verbatim>\<open>double\<close>, the IEEE 754 binary64 format in its default rounding
  mode. A double is a finite number, an infinity or NaN; the sign of zero is not modelled (no
  operand of the program is negative).
\<close>

datatype double = Num real | PosInf | NegInf | NaN

text \<open>Rounding to the nearest integer, a tie going to the even one.\<close>

definition round_to_even :: "real \<Rightarrow> int" where
  "round_to_even q =
     (let f = \<lfloor>q\<rfloor>
      in if q - of_int f < 1 / 2 then f
         else if 1 / 2 < q - of_int f then f + 1
         else if even f then f else f + 1)"

text \<open>
  The double nearest to a real number. The exponent is that of the number, and not less than
  the least exponent \<open>- 1022\<close> of a normal double; the significand has 53 bits, so doubles with
  that exponent are the multiples of \<open>2 powr (e - 52)\<close>; a result of magnitude \<open>2 ^ 1024\<close> or
  more overflows to an infinity.
\<close>

definition round_double :: "real \<Rightarrow> double" where
  "round_double x =
     (if x = 0 then Num 0
      else
        let e = max (- 1022) \<lfloor>log 2 \<bar>x\<bar>\<rfloor>;
            ulp = 2 powr (of_int e - 52);
            r = of_int (round_to_even (x / ulp)) * ulp
        in if 2 ^ 1024 \<le> \<bar>r\<bar> then (if 0 < x then PosInf else NegInf) else Num r)"

text \<open>Division, square root and addition: the exact result, rounded.\<close>

fun ddiv :: "double \<Rightarrow> double \<Rightarrow> double" where
  "ddiv NaN y = NaN"
| "ddiv x NaN = NaN"
| "ddiv (Num a) (Num b) =
     (if b \<noteq> 0 then round_double (a / b)
      else if a = 0 then NaN else if 0 < a then PosInf else NegInf)"
| "ddiv (Num a) y = Num 0"
| "ddiv PosInf (Num b) = (if 0 \<le> b then PosInf else NegInf)"
| "ddiv NegInf (Num b) = (if 0 \<le> b then NegInf else PosInf)"
| "ddiv x y = NaN"

fun dsqrt :: "double \<Rightarrow> double" where
  "dsqrt (Num a) = (if 0 \<le> a then round_double (sqrt a) else NaN)"
| "dsqrt PosInf = PosInf"
| "dsqrt x = NaN"

fun dadd :: "double \<Rightarrow> double \<Rightarrow> double" where
  "dadd NaN y = NaN"
| "dadd x NaN = NaN"
| "dadd (Num a) (Num b) = round_double (a + b)"
| "dadd (Num a) y = y"
| "dadd x (Num b) = x"
| "dadd PosInf PosInf = PosInf"
| "dadd NegInf NegInf = NegInf"
| "dadd x y = NaN"

text \<open>The comparison \<^verbatim>\<open><\<close>: false whenever an operand is NaN.\<close>

fun dless :: "double \<Rightarrow> double \<Rightarrow> bool" where
  "dless NaN y = False"
| "dless x NaN = False"
| "dless (Num a) (Num b) = (a < b)"
| "dless (Num a) PosInf = True"
| "dless NegInf (Num b) = True"
| "dless NegInf PosInf = True"
| "dless x y = False"

text \<open>The conversion of a \<^verbatim>\<open>size_t\<close> to \<^verbatim>\<open>double\<close>: it rounds values of more than 53 bits.\<close>

definition to_double :: "size_t \<Rightarrow> double" where
  "to_double w = round_double (real (unat w))"

subsection \<open>VariantWithStatistics\<close>

record VariantWithStatistics =
  func :: memcpy_type
  time :: size_t
  bytes :: size_t
  count :: size_t
  kind :: size_t

text \<open>The constructor: the three statistics start at their member initialiser 0.\<close>

definition Variant :: "size_t \<Rightarrow> memcpy_type \<Rightarrow> VariantWithStatistics" where
  "Variant kind' func' = \<lparr>func = func', time = 0, bytes = 0, count = 0, kind = kind'\<rparr>"

text \<open>\<^verbatim>\<open>score()\<close>: less is better.\<close>

definition score :: "VariantWithStatistics \<Rightarrow> double" where
  "score v =
     (let loaded_time = to_double (time v);
          loaded_bytes = to_double (bytes v);
          loaded_count = to_double (count v);
          mean = ddiv loaded_time loaded_bytes;
          sigma = ddiv mean (dsqrt loaded_count)
      in dadd mean sigma)"

definition smooth :: "VariantWithStatistics \<Rightarrow> VariantWithStatistics" where
  "smooth v = v\<lparr>time := 1 + time v div 2, bytes := 1 + bytes v div 2, count := 1 + count v div 2\<rparr>"

subsection \<open>MultipleVariantsWithStatistics\<close>

text \<open>
  The member \<^verbatim>\<open>count\<close> of the dispatcher is the field \<open>call_count\<close> here (the record of a
  variant already has a field \<open>count\<close>).
\<close>

record MultipleVariantsWithStatistics =
  selected_variant :: memcpy_type
  variants :: "VariantWithStatistics list"
  call_count :: size_t
  exploration_count :: size_t
  exploration_probability_threshold :: size_t

definition num_cells :: nat where
  "num_cells = 16"

definition probability_distribution_buckets :: size_t where
  "probability_distribution_buckets = 256"

definition num_explorations_before_optimize :: size_t where
  "num_explorations_before_optimize = 256"

text \<open>The state of the global \<^verbatim>\<open>variants\<close> after its static initialisation.\<close>

definition initial :: MultipleVariantsWithStatistics where
  "initial = \<lparr>
     selected_variant = memcpy,
     variants =
       [Variant 1 memcpy,
        Variant 4 memcpy_erms,
        Variant 10 memcpy_fast_sse,
        Variant 11 memcpy_fast_avx,
        Variant 25 glibc_memcpy_avx_unaligned,
        Variant 26 glibc_memcpy_avx_unaligned_erms,
        Variant 23 glibc_memcpy_ssse3,
        Variant 24 glibc_memcpy_ssse3_back,
        Variant 2 memcpy_trivial,
        Variant 31 memcpy_medium_avx_forward2,
        Variant 6 memcpySSE2,
        Variant 7 memcpySSE2Unrolled2,
        Variant 8 memcpySSE2Unrolled4,
        Variant 9 memcpySSE2Unrolled8,
        Variant 32 memcpy_medium_sse_forward,
        Variant 33 memcpy_medium_avx_forward],
     call_count = 0,
     exploration_count = 0,
     exploration_probability_threshold = 0\<rparr>"

text \<open>
  What a call lets an observer see: the kernel it invoked, the index of the variant it timed
  (an exploration only), and the \<^verbatim>\<open>kind\<close> it wrote to \<^verbatim>\<open>std::cerr\<close> (a reoptimization only).
\<close>

record outcome =
  invoked :: memcpy_type
  explored :: "nat option"
  printed :: "size_t option"

text \<open>The hash of \<^verbatim>\<open>explore\<close> and the index \<^verbatim>\<open>hash % num_cells\<close>.\<close>

definition hash_index :: "size_t \<Rightarrow> nat" where
  "hash_index current_exploration_count =
     (let hash = current_exploration_count;
          hash = hash * 0xff51afd7ed558ccd;
          hash = hash XOR drop_bit 33 hash
      in unat hash mod num_cells)"

text \<open>
  The guarded update of the timed variant (\<^verbatim>\<open>if (time < size)\<close>): the 32-bit \<^verbatim>\<open>time\<close> is
  promoted to \<^verbatim>\<open>size_t\<close> for the comparison and the addition.
\<close>

definition record_sample :: "UInt32 \<Rightarrow> size_t \<Rightarrow> VariantWithStatistics \<Rightarrow> VariantWithStatistics" where
  "record_sample time' size' variant =
     (if ucast time' < size'
      then variant\<lparr>count := count variant + 1,
                   bytes := bytes variant + size',
                   time := time variant + ucast time'\<rparr>
      else variant)"

text \<open>
  The new threshold. Every intermediate value is finite (the divisors are the constants 256
  and 1.5) and the roundings of the operations are too small to carry the product across an
  integer, so the computation is written in exact real arithmetic; the conversion of the
  product to \<^verbatim>\<open>size_t\<close> truncates, and \<^verbatim>\<open>std::min<size_t>\<close> compares after it.
\<close>

definition new_threshold :: "size_t \<Rightarrow> size_t" where
  "new_threshold threshold =
     (let exploration_probability = 1 - real (unat threshold) / real (unat probability_distribution_buckets);
          exploration_probability = exploration_probability / 1.5
      in min (probability_distribution_buckets - 1)
             (word_of_int \<lfloor>real (unat probability_distribution_buckets) * (1 - exploration_probability)\<rfloor>))"

text \<open>
  One iteration of the selection loop on \<open>(variants, best_variant, best_score)\<close>: the score
  of entry \<open>i\<close> is read, the entry is smoothed, and the best is replaced on a strictly
  smaller score.
\<close>

definition select_step ::
  "VariantWithStatistics list \<times> nat \<times> double \<Rightarrow> nat \<Rightarrow> VariantWithStatistics list \<times> nat \<times> double" where
  "select_step acc i =
     (case acc of (vs, best_variant, best_score) \<Rightarrow>
        let score' = score (vs ! i);
            vs = vs[i := smooth (vs ! i)]
        in if dless score' best_score then (vs, i, score') else (vs, best_variant, best_score))"

definition select_loop :: "VariantWithStatistics list \<Rightarrow> VariantWithStatistics list \<times> nat \<times> double" where
  "select_loop vs = foldl select_step (vs, 0, Num 1000000000) [0..<num_cells]"

text \<open>The body of \<^verbatim>\<open>if (current_exploration_count == num_explorations_before_optimize)\<close>.\<close>

definition reoptimize :: "MultipleVariantsWithStatistics \<Rightarrow> size_t \<times> MultipleVariantsWithStatistics" where
  "reoptimize s =
     (let s = s\<lparr>exploration_probability_threshold := new_threshold (exploration_probability_threshold s)\<rparr>;
          s = s\<lparr>exploration_count := 0\<rparr>
      in case select_loop (variants s) of (vs, best_variant, best_score) \<Rightarrow>
           (kind (vs ! best_variant),
            s\<lparr>variants := vs, selected_variant := func (vs ! best_variant)\<rparr>))"

definition explore ::
  "MultipleVariantsWithStatistics \<Rightarrow> size_t \<Rightarrow> UInt32 \<Rightarrow> UInt32 \<Rightarrow> outcome \<times> MultipleVariantsWithStatistics" where
  "explore s size' time1 time2 =
     (let current_exploration_count = exploration_count s;
          s = s\<lparr>exploration_count := current_exploration_count + 1\<rparr>;
          i = hash_index current_exploration_count;
          ret = func (variants s ! i);
          time' = time2 - time1;
          s = s\<lparr>variants := (variants s)[i := record_sample time' size' (variants s ! i)]\<rparr>
      in if current_exploration_count = num_explorations_before_optimize
         then (case reoptimize s of (k, s) \<Rightarrow> (\<lparr>invoked = ret, explored = Some i, printed = Some k\<rparr>, s))
         else (\<lparr>invoked = ret, explored = Some i, printed = None\<rparr>, s))"

definition call ::
  "MultipleVariantsWithStatistics \<Rightarrow> size_t \<Rightarrow> UInt32 \<Rightarrow> UInt32 \<Rightarrow> outcome \<times> MultipleVariantsWithStatistics" where
  "call s size' time1 time2 =
     (let current_count = call_count s;
          s = s\<lparr>call_count := current_count + 1\<rparr>
      in if current_count mod probability_distribution_buckets < exploration_probability_threshold s
         then (\<lparr>invoked = selected_variant s, explored = None, printed = None\<rparr>, s)
         else explore s size' time1 time2)"

subsection \<open>memcpy_selftuned\<close>



subsection \<open>Sequential executions\<close>

text \<open>
  A sequential execution is a list of calls of \<^verbatim>\<open>variants.call\<close>, each with its size and its
  two clock readings, run one after the other on the dispatcher.
\<close>

type_synonym call_input = "size_t \<times> UInt32 \<times> UInt32"

fun run :: "MultipleVariantsWithStatistics \<Rightarrow> call_input list \<Rightarrow> outcome list \<times> MultipleVariantsWithStatistics" where
  "run s [] = ([], s)"
| "run s ((size', time1, time2) # rest) =
     (case call s size' time1 time2 of (out, s) \<Rightarrow>
        case run s rest of (outs, s) \<Rightarrow> (out # outs, s))"

text \<open>
  The two writers of one variant's statistics, as operations on it: the guarded update of an
  exploration and \<^verbatim>\<open>smooth()\<close>.
\<close>

datatype variant_op = Record UInt32 size_t | Smooth

fun apply_op :: "VariantWithStatistics \<Rightarrow> variant_op \<Rightarrow> VariantWithStatistics" where
  "apply_op v (Record time' size') = record_sample time' size' v"
| "apply_op v Smooth = smooth v"

definition apply_ops :: "VariantWithStatistics \<Rightarrow> variant_op list \<Rightarrow> VariantWithStatistics" where
  "apply_ops v ops = foldl apply_op v ops"

text \<open>No accepted sample of the sequence carries a 64-bit sum past \<open>2 ^ 64\<close>.\<close>

fun no_wrap :: "VariantWithStatistics \<Rightarrow> variant_op list \<Rightarrow> bool" where
  "no_wrap v [] = True"
| "no_wrap v (Record time' size' # ops) =
     ((ucast time' < size' \<longrightarrow>
         unat (count v) + 1 < 2 ^ 64 \<and>
         unat (bytes v) + unat size' < 2 ^ 64 \<and>
         unat (time v) + unat time' < 2 ^ 64) \<and>
      no_wrap (record_sample time' size' v) ops)"
| "no_wrap v (Smooth # ops) = no_wrap (smooth v) ops"

section \<open>Auxiliary facts\<close>

subsection \<open>Rounding\<close>

lemma round_to_even_of_int: "round_to_even (of_int n) = n"
  by (simp add: round_to_even_def)

lemma round_to_even_ge: "of_int n \<le> q \<Longrightarrow> n \<le> round_to_even q"
proof -
  assume "of_int n \<le> q"
  then have "n \<le> \<lfloor>q\<rfloor>" by (simp add: le_floor_iff)
  then show ?thesis by (simp add: round_to_even_def Let_def)
qed

lemma round_to_even_le: "q \<le> of_int n \<Longrightarrow> round_to_even q \<le> n"
proof (cases "q = of_int n")
  case True
  then show ?thesis by (simp add: round_to_even_of_int)
next
  case False
  assume "q \<le> of_int n"
  with False have "q < of_int n" by simp
  then have "\<lfloor>q\<rfloor> < n" by (simp add: floor_less_iff)
  then show ?thesis by (simp add: round_to_even_def Let_def)
qed

lemma round_double_binade:
  assumes x: "0 < x"
    and lo: "2 powr of_int e \<le> x"
    and hi: "x < 2 powr (of_int e + 1)"
    and e: "- 1022 \<le> e" "e \<le> 1022"
  shows "round_double x =
           Num (of_int (round_to_even (x / 2 powr (of_int e - 52))) * 2 powr (of_int e - 52))"
proof -
  let ?ulp = "2 powr (of_int e - 52) :: real"
  let ?n = "round_to_even (x / ?ulp)"
  have fl: "\<lfloor>log 2 x\<rfloor> = e"
    using x lo hi by (simp add: floor_log_eq_powr_iff)
  have ulp: "0 < ?ulp" by simp
  have split: "2 powr (of_int e + 1) = (2 powr 53 :: real) * ?ulp"
  proof -
    have "(of_int e + 1 :: real) = 53 + (of_int e - 52)" by simp
    then show ?thesis by (simp only: powr_add)
  qed
  have p53: "(2 powr 53 :: real) = of_int (2 ^ 53)" by simp
  have "x / ?ulp \<le> 2 powr (of_int e + 1) / ?ulp"
    using hi ulp by (simp add: divide_right_mono)
  also have "\<dots> = of_int (2 ^ 53)"
    unfolding split p53 using ulp by simp
  finally have "?n \<le> 2 ^ 53" by (rule round_to_even_le)
  then have "(of_int ?n :: real) \<le> 2 powr 53" unfolding p53 by (simp only: of_int_le_iff)
  then have "of_int ?n * ?ulp \<le> 2 powr 53 * ?ulp"
    using ulp by (simp only: mult_le_cancel_right_pos)
  also have "\<dots> = 2 powr (of_int e + 1)"
    by (simp only: split)
  also have "\<dots> \<le> 2 powr real 1023"
    by (rule powr_mono) (use e in simp_all)
  also have "\<dots> = 2 ^ 1023"
    by (rule powr_realpow) simp
  also have "\<dots> < (2 ^ 1024 :: real)"
    by (rule power_strict_increasing) simp_all
  finally have up: "of_int ?n * ?ulp < 2 ^ 1024" .
  have "(0::real) \<le> x / ?ulp" using x by simp
  then have "of_int 0 \<le> x / ?ulp" by simp
  then have "0 \<le> ?n" by (rule round_to_even_ge)
  then have nonneg: "0 \<le> of_int ?n * ?ulp" by simp
  from up nonneg have "\<not> 2 ^ 1024 \<le> \<bar>of_int ?n * ?ulp\<bar>" by simp
  then show ?thesis
    using x e by (simp add: round_double_def fl Let_def)
qed


lemma round_double_bounds:
  assumes x: "0 \<le> x" and k: "x \<le> 2 ^ k" "k \<le> 1023"
  shows "\<exists>r. round_double x = Num r \<and> 0 \<le> r \<and> r \<le> 2 ^ k \<and> (1 \<le> x \<longrightarrow> 1 \<le> r)"
proof (cases "x = 0")
  case True
  then show ?thesis by (simp add: round_double_def)
next
  case False
  with x have pos: "0 < x" by simp
  define L where "L = \<lfloor>log 2 x\<rfloor>"
  define e where "e = max (- 1022) L"
  define ulp :: real where "ulp = 2 powr (of_int e - 52)"
  define n where "n = round_to_even (x / ulp)"
  have ulp: "0 < ulp" by (simp add: ulp_def)
  from pos have bin: "2 powr of_int L \<le> x" "x < 2 powr (of_int L + 1)"
    using floor_log_eq_powr_iff [of x 2 L] by (simp_all add: L_def)
  have pr: "(2 :: real) powr real j = 2 ^ j" for j by (simp add: powr_realpow)
  have pk: "(2 ^ k :: real) = 2 powr real k" by (simp only: pr)
  have "2 powr of_int L \<le> (2 powr real k :: real)" using bin(1) k(1) by (simp only: pk)
  then have Lk: "L \<le> int k" by simp
  then have ek: "e \<le> int k" by (simp add: e_def)
  define m where "m = nat (int k - e + 52)"
  have m: "real m = real k - of_int e + 52" using ek by (simp add: m_def)
  have top: "2 ^ k = of_int (2 ^ m) * ulp"
  proof -
    have "real k = real m + (of_int e - 52)" by (simp add: m)
    then have "(2 powr real k :: real) = 2 powr real m * 2 powr (of_int e - 52)"
      by (simp only: powr_add)
    then have "(2 ^ k :: real) = 2 ^ m * ulp" by (simp only: pr ulp_def)
    then show ?thesis by simp
  qed
  have "x / ulp \<le> 2 ^ k / ulp" using k(1) ulp by (simp add: divide_right_mono)
  also have "\<dots> = of_int (2 ^ m)" unfolding top using ulp by simp
  finally have "n \<le> 2 ^ m" unfolding n_def by (rule round_to_even_le)
  then have "(of_int n :: real) \<le> of_int (2 ^ m)" by (simp only: of_int_le_iff)
  then have "of_int n * ulp \<le> of_int (2 ^ m) * ulp"
    using ulp by (simp only: mult_le_cancel_right_pos)
  then have upper: "of_int n * ulp \<le> 2 ^ k" by (simp only: top)
  have "(2 ^ k :: real) \<le> 2 ^ 1023" using k(2) by (intro power_increasing) simp_all
  also have "\<dots> < (2 ^ 1024 :: real)" by (rule power_strict_increasing) simp_all
  finally have fin: "(2 ^ k :: real) < 2 ^ 1024" .
  have "of_int 0 \<le> x / ulp" using pos ulp by simp
  then have "0 \<le> n" unfolding n_def by (rule round_to_even_ge)
  then have lower: "0 \<le> of_int n * ulp" using ulp by simp
  from upper lower fin have "\<not> 2 ^ 1024 \<le> \<bar>of_int n * ulp\<bar>" by simp
  then have val: "round_double x = Num (of_int n * ulp)"
    unfolding round_double_def Let_def L_def [symmetric] e_def [symmetric]
        ulp_def [symmetric] n_def [symmetric] abs_of_pos [OF pos] using pos by simp
  have one: "1 \<le> of_int n * ulp" if "1 \<le> x"
  proof -
    have "0 \<le> log 2 x" using that pos by simp
    then have L0: "0 \<le> L" by (simp add: L_def)
    then have eL: "e = L" by (simp add: e_def)
    have split: "2 powr of_int e = (2 powr 52 :: real) * ulp"
    proof -
      have eq: "52 + (of_int e - 52) = (of_int e :: real)" by simp
      show ?thesis unfolding ulp_def by (simp only: powr_add [symmetric] eq)
    qed
    have p52: "(2 powr 52 :: real) = of_int (2 ^ 52)" by simp
    have "of_int (2 ^ 52) = 2 powr of_int e / ulp" unfolding split p52 using ulp by simp
    also have "\<dots> \<le> x / ulp" using bin(1) ulp by (simp add: eL divide_right_mono)
    finally have "2 ^ 52 \<le> n" unfolding n_def by (rule round_to_even_ge)
    then have "(of_int (2 ^ 52) :: real) \<le> of_int n" by (simp only: of_int_le_iff)
    then have "of_int (2 ^ 52) * ulp \<le> of_int n * ulp"
      using ulp by (simp only: mult_le_cancel_right_pos)
    then have "2 powr of_int e \<le> of_int n * ulp" by (simp only: split p52)
    moreover have "(2 powr 0 :: real) \<le> 2 powr of_int e"
      by (rule powr_mono) (use L0 eL in simp_all)
    ultimately show ?thesis by simp
  qed
  show ?thesis using val lower upper one by blast
qed

lemma round_double_of_nat:
  assumes "n < 2 ^ 53"
  shows "round_double (real n) = Num (real n)"
proof (cases "n = 0")
  case True
  then show ?thesis by (simp add: round_double_def)
next
  case False
  then have pos: "0 < real n" by simp
  define L where "L = \<lfloor>log 2 (real n)\<rfloor>"
  from pos have bin: "2 powr of_int L \<le> real n" "real n < 2 powr (of_int L + 1)"
    using floor_log_eq_powr_iff [of "real n" 2 L] by (simp_all add: L_def)
  have "1 \<le> real n" using False by simp
  then have "0 \<le> log 2 (real n)" by simp
  then have L0: "0 \<le> L" by (simp add: L_def)
  have "real n < 2 ^ 53" using assms by (metis of_nat_less_iff of_nat_numeral of_nat_power)
  then have "2 powr of_int L < (2 powr real 53 :: real)"
    using bin(1) by (simp add: powr_realpow)
  then have "of_int L < real 53" by (simp only: powr_less_cancel_iff one_less_numeral_iff semiring_norm)
  then have L52: "L \<le> 52" by simp
  define m where "m = nat (52 - L)"
  have m: "real m = 52 - of_int L" using L52 by (simp add: m_def)
  have ulp: "2 powr (of_int L - 52) = 1 / (2 ^ m :: real)"
  proof -
    have "of_int L - 52 = - real m" by (simp add: m)
    then show ?thesis by (simp add: powr_minus_divide powr_realpow)
  qed
  have q: "real n * 2 ^ m = of_int (int n * 2 ^ m)" by simp
  have "round_to_even (real n * 2 ^ m) = int n * 2 ^ m"
    unfolding q by (rule round_to_even_of_int)
  then show ?thesis
    using round_double_binade [OF pos bin] L0 L52
    by (simp add: ulp)
qed

subsection \<open>Comparison of doubles\<close>

lemma dless_irrefl: "\<not> dless a a"
  by (cases a) simp_all

lemma dless_trans: "dless a b \<Longrightarrow> dless b c \<Longrightarrow> dless a c"
  by (cases a; cases b; cases c) simp_all

lemma dless_below: "dless a b \<Longrightarrow> dless c d \<Longrightarrow> \<not> dless c b \<Longrightarrow> dless a c"
  by (cases a; cases b; cases c; cases d) simp_all

subsection \<open>The hash and smooth\<close>

lemma hash_index_less: "hash_index c < num_cells"
  by (simp add: hash_index_def num_cells_def Let_def)

lemma hash_index_0: "hash_index 0 = 0"
  by (simp add: hash_index_def num_cells_def)

lemma hash_index_1: "hash_index 1 = 6"
  by (simp add: hash_index_def num_cells_def)

lemma hash_index_256: "hash_index 256 = 6"
  by (simp add: hash_index_def num_cells_def)

lemma smooth_fields:
  "time (smooth v) = 1 + time v div 2" "bytes (smooth v) = 1 + bytes v div 2"
  "count (smooth v) = 1 + count v div 2" "func (smooth v) = func v" "kind (smooth v) = kind v"
  by (simp_all add: smooth_def)

lemma unat_half_succ: "unat (1 + (w :: size_t) div 2) = 1 + unat w div 2"
proof -
  have "unat w < 2 ^ 64" using unsigned_less [of w] by simp
  then have "1 + unat w div 2 < 2 ^ 64" by simp
  then show ?thesis
    by (simp add: unat_word_ariths unat_div)
qed

lemma half_succ_ge_1: "1 \<le> 1 + (w :: size_t) div 2"
  by (simp add: word_le_nat_alt unat_half_succ)

subsection \<open>The selection loop\<close>

text \<open>
  After \<open>n\<close> iterations the first \<open>n\<close> entries are smoothed, and the best index is either
  still the initial 0 (no score so far was below \<open>1e9\<close>) or the first index of the least
  score read so far.
\<close>

lemma select_prefix:
  "n \<le> length vs \<Longrightarrow>
   (case foldl select_step (vs, 0, Num 1000000000) [0..<n] of (ws, b, bs) \<Rightarrow>
      ws = map smooth (take n vs) @ drop n vs \<and>
      ((b = 0 \<and> bs = Num 1000000000 \<and> (\<forall>i<n. \<not> dless (score (vs ! i)) (Num 1000000000))) \<or>
       (b < n \<and> bs = score (vs ! b) \<and> dless bs (Num 1000000000) \<and>
        (\<forall>i<n. \<not> dless (score (vs ! i)) bs) \<and>
        (\<forall>i<b. dless (score (vs ! i)) (Num 1000000000) \<longrightarrow> dless bs (score (vs ! i))))))"
proof (induction n)
  case 0
  then show ?case by simp
next
  case (Suc n)
  then have n: "n < length vs" by simp
  obtain ws b bs where st: "foldl select_step (vs, 0, Num 1000000000) [0..<n] = (ws, b, bs)"
    by (cases "foldl select_step (vs, 0, Num 1000000000) [0..<n]") auto
  from Suc st have ws: "ws = map smooth (take n vs) @ drop n vs"
    and inv: "(b = 0 \<and> bs = Num 1000000000 \<and> (\<forall>i<n. \<not> dless (score (vs ! i)) (Num 1000000000))) \<or>
       (b < n \<and> bs = score (vs ! b) \<and> dless bs (Num 1000000000) \<and>
        (\<forall>i<n. \<not> dless (score (vs ! i)) bs) \<and>
        (\<forall>i<b. dless (score (vs ! i)) (Num 1000000000) \<longrightarrow> dless bs (score (vs ! i))))"
    by simp_all
  have at: "ws ! n = vs ! n" using n by (simp add: ws nth_append)
  have upd: "ws[n := smooth (vs ! n)] = map smooth (take (Suc n) vs) @ drop (Suc n) vs"
    using n by (simp add: ws list_update_append take_Suc_conv_app_nth
        Cons_nth_drop_Suc [symmetric])
  show ?case
  proof (cases "dless (score (vs ! n)) bs")
    case True
    have step: "foldl select_step (vs, 0, Num 1000000000) [0..<Suc n] =
        (map smooth (take (Suc n) vs) @ drop (Suc n) vs, n, score (vs ! n))"
      using True by (simp add: st select_step_def at upd Let_def)
    have below: "dless (score (vs ! n)) (Num 1000000000)"
      using inv True by (auto intro: dless_trans)
    have all: "\<not> dless (score (vs ! i)) (score (vs ! n))" if "i < Suc n" for i
    proof (cases "i = n")
      case True
      then show ?thesis by (simp add: dless_irrefl)
    next
      case False
      with that have "i < n" by simp
      with inv have "\<not> dless (score (vs ! i)) bs" by auto
      with True show ?thesis by (blast intro: dless_trans)
    qed
    have first: "dless (score (vs ! n)) (score (vs ! i))"
      if "i < n" "dless (score (vs ! i)) (Num 1000000000)" for i
    proof -
      from inv that have "\<not> dless (score (vs ! i)) bs" by auto
      with True that(2) show ?thesis by (rule dless_below)
    qed
    show ?thesis unfolding step using below all first n by simp
  next
    case False
    have step: "foldl select_step (vs, 0, Num 1000000000) [0..<Suc n] =
        (map smooth (take (Suc n) vs) @ drop (Suc n) vs, b, bs)"
      using False by (simp add: st select_step_def at upd Let_def)
    from inv show ?thesis
    proof
      assume a: "b = 0 \<and> bs = Num 1000000000 \<and> (\<forall>i<n. \<not> dless (score (vs ! i)) (Num 1000000000))"
      with False have "\<forall>i<Suc n. \<not> dless (score (vs ! i)) (Num 1000000000)"
        by (auto simp: less_Suc_eq)
      with a show ?thesis unfolding step by auto
    next
      assume a: "b < n \<and> bs = score (vs ! b) \<and> dless bs (Num 1000000000) \<and>
        (\<forall>i<n. \<not> dless (score (vs ! i)) bs) \<and>
        (\<forall>i<b. dless (score (vs ! i)) (Num 1000000000) \<longrightarrow> dless bs (score (vs ! i)))"
      with False have "\<forall>i<Suc n. \<not> dless (score (vs ! i)) bs"
        by (auto simp: less_Suc_eq)
      with a show ?thesis unfolding step by auto
    qed
  qed
qed

lemma select_loop_variants:
  "length vs = num_cells \<Longrightarrow> fst (select_loop vs) = map smooth vs"
  using select_prefix [of num_cells vs] by (auto simp: select_loop_def split: prod.splits)

subsection \<open>One exploration, unfolded\<close>

lemma explore_unfold:
  "explore s size' time1 time2 =
     (let i = hash_index (exploration_count s);
          vs = (variants s)[i := record_sample (time2 - time1) size' (variants s ! i)];
          s1 = s\<lparr>exploration_count := exploration_count s + 1, variants := vs\<rparr>
      in if exploration_count s = num_explorations_before_optimize
         then (\<lparr>invoked = func (variants s ! i), explored = Some i,
                 printed = Some (fst (reoptimize s1))\<rparr>, snd (reoptimize s1))
         else (\<lparr>invoked = func (variants s ! i), explored = Some i, printed = None\<rparr>, s1))"
  by (simp add: explore_def Let_def split: prod.splits)

lemma reoptimize_variants:
  "length (variants s) = num_cells \<Longrightarrow> variants (snd (reoptimize s)) = map smooth (variants s)"
  using select_loop_variants [of "variants s"]
  by (cases "select_loop (variants s)") (simp add: reoptimize_def Let_def)

subsection \<open>Calls and explorations, unfolded\<close>

lemma explore_outcome:
  "explored (fst (explore s size' time1 time2)) = Some (hash_index (exploration_count s))"
  "invoked (fst (explore s size' time1 time2)) = func (variants s ! hash_index (exploration_count s))"
  "printed (fst (explore s size' time1 time2)) = None \<longleftrightarrow>
     exploration_count s \<noteq> num_explorations_before_optimize"
  by (simp_all add: explore_unfold Let_def)

lemma explore_no_reoptimization:
  "exploration_count s \<noteq> num_explorations_before_optimize \<Longrightarrow>
   snd (explore s size' time1 time2) =
     s\<lparr>exploration_count := exploration_count s + 1,
       variants := (variants s)[hash_index (exploration_count s) :=
         record_sample (time2 - time1) size' (variants s ! hash_index (exploration_count s))]\<rparr>"
  by (simp add: explore_unfold Let_def)

lemma call_unfold:
  "call s size' time1 time2 =
     (if call_count s mod 256 < exploration_probability_threshold s
      then (\<lparr>invoked = selected_variant s, explored = None, printed = None\<rparr>,
            s\<lparr>call_count := call_count s + 1\<rparr>)
      else explore (s\<lparr>call_count := call_count s + 1\<rparr>) size' time1 time2)"
  by (simp add: call_def Let_def probability_distribution_buckets_def)

lemma call_keeps_threshold:
  "printed (fst (call s size' time1 time2)) = None \<Longrightarrow>
   exploration_probability_threshold (snd (call s size' time1 time2)) =
     exploration_probability_threshold s"
  by (simp add: call_unfold explore_outcome explore_no_reoptimization split: if_splits)

lemma call_explores_at_zero:
  "exploration_probability_threshold s = 0 \<Longrightarrow> explored (fst (call s size' time1 time2)) \<noteq> None"
  by (simp add: call_unfold explore_outcome)

lemma run_explores_until_reoptimization:
  "exploration_probability_threshold s = 0 \<Longrightarrow>
   \<forall>out \<in> set (fst (run s inputs)). printed out = None \<Longrightarrow>
   (\<forall>out \<in> set (fst (run s inputs)). explored out \<noteq> None) \<and>
   exploration_probability_threshold (snd (run s inputs)) = 0"
proof (induction inputs arbitrary: s)
  case Nil
  then show ?case by simp
next
  case (Cons x inputs)
  obtain size' time1 time2 where x: "x = (size', time1, time2)" by (cases x) auto
  obtain out s1 where c: "call s size' time1 time2 = (out, s1)" by (cases "call s size' time1 time2") auto
  obtain outs s2 where r: "run s1 inputs = (outs, s2)" by (cases "run s1 inputs") auto
  from Cons.prems(2) have p: "printed out = None" and ps: "\<forall>out \<in> set outs. printed out = None"
    by (simp_all add: x c r)
  have "exploration_probability_threshold s1 = 0"
    using call_keeps_threshold [of s size' time1 time2] p Cons.prems(1) by (simp add: c)
  with Cons.IH [of s1] ps r have "(\<forall>out \<in> set outs. explored out \<noteq> None) \<and>
      exploration_probability_threshold s2 = 0" by simp
  moreover have "explored out \<noteq> None"
    using call_explores_at_zero [OF Cons.prems(1), of size' time1 time2] by (simp add: c)
  ultimately show ?case by (simp add: x c r)
qed

subsection \<open>Accepted and rejected samples\<close>

lemma unat_ucast_32_64: "unat (ucast (e :: UInt32) :: size_t) = unat e"
  by (simp add: unsigned_ucast_eq take_bit_nat_eq_self unsigned_less [of e, THEN less_trans])

lemma ucast_32_64_eq_0: "(ucast (e :: UInt32) :: size_t) = 0 \<longleftrightarrow> e = 0"
  by (metis unat_ucast_32_64 unat_eq_zero)

lemma record_sample_accepted:
  "ucast time' < size' \<Longrightarrow>
   record_sample time' size' v =
     v\<lparr>count := count v + 1, bytes := bytes v + size', time := time v + ucast time'\<rparr>"
  by (simp add: record_sample_def)

lemma record_sample_rejected: "\<not> ucast time' < size' \<Longrightarrow> record_sample time' size' v = v"
  by (simp add: record_sample_def)

lemma word_less_add_nowrap:
  "unat (a :: size_t) + unat b < 2 ^ 64 \<Longrightarrow> a < a + b \<longleftrightarrow> b \<noteq> 0"
proof -
  assume "unat a + unat b < 2 ^ 64"
  then have "unat (a + b) = unat a + unat b"
    by (simp add: unat_word_ariths)
  then show ?thesis
    by (simp add: word_less_nat_alt unat_gt_0)
qed

subsection \<open>Sequences of samples and decays on one variant\<close>

lemma word_ge_1_add:
  "unat (a :: size_t) + unat b < 2 ^ 64 \<Longrightarrow> 1 \<le> a \<or> 1 \<le> b \<Longrightarrow> 1 \<le> a + b"
proof -
  assume "unat a + unat b < 2 ^ 64" and "1 \<le> a \<or> 1 \<le> b"
  moreover from this have "unat (a + b) = unat a + unat b"
    by (simp add: unat_word_ariths)
  ultimately show ?thesis
    by (auto simp: word_le_nat_alt)
qed

lemma apply_op_keeps_positive:
  assumes "no_wrap v [x]"
  shows "(1 \<le> count v \<longrightarrow> 1 \<le> count (apply_op v x)) \<and>
         (1 \<le> bytes v \<longrightarrow> 1 \<le> bytes (apply_op v x)) \<and>
         (1 \<le> time v \<longrightarrow> 1 \<le> time (apply_op v x))"
proof (cases x)
  case (Record time' size')
  show ?thesis
  proof (cases "ucast time' < size'")
    case True
    with assms Record show ?thesis
      using word_ge_1_add [of "count v" 1] word_ge_1_add [of "bytes v" size']
        word_ge_1_add [of "time v" "ucast time'"]
      by (simp add: record_sample_accepted unat_ucast_32_64)
  next
    case False
    with Record show ?thesis by (simp add: record_sample_rejected)
  qed
next
  case Smooth
  then show ?thesis by (simp add: smooth_fields half_succ_ge_1)
qed

lemma no_wrap_Cons: "no_wrap v (x # ops) \<longleftrightarrow> no_wrap v [x] \<and> no_wrap (apply_op v x) ops"
  by (cases x) auto

lemma apply_ops_Cons: "apply_ops v (x # ops) = apply_ops (apply_op v x) ops"
  by (simp add: apply_ops_def)

lemma apply_ops_keep_positive:
  "no_wrap v ops \<Longrightarrow>
   (1 \<le> count v \<longrightarrow> 1 \<le> count (apply_ops v ops)) \<and>
   (1 \<le> bytes v \<longrightarrow> 1 \<le> bytes (apply_ops v ops)) \<and>
   (1 \<le> time v \<longrightarrow> 1 \<le> time (apply_ops v ops))"
proof (induction ops arbitrary: v)
  case Nil
  then show ?case by (simp add: apply_ops_def)
next
  case (Cons x ops)
  from Cons.prems have one: "no_wrap v [x]" and rest: "no_wrap (apply_op v x) ops"
    by (simp_all add: no_wrap_Cons [of v x ops])
  show ?case
    using apply_op_keeps_positive [OF one] Cons.IH [OF rest]
    by (simp add: apply_ops_Cons)
qed

lemma apply_ops_time_after_smooth:
  "no_wrap v ops \<Longrightarrow> Smooth \<in> set ops \<Longrightarrow> 1 \<le> time (apply_ops v ops)"
proof (induction ops arbitrary: v)
  case Nil
  then show ?case by simp
next
  case (Cons x ops)
  from Cons.prems have rest: "no_wrap (apply_op v x) ops"
    by (simp add: no_wrap_Cons [of v x ops])
  show ?case
  proof (cases "x = Smooth")
    case True
    then have "1 \<le> time (apply_op v x)" by (simp add: smooth_fields half_succ_ge_1)
    with apply_ops_keep_positive [OF rest] show ?thesis by (simp add: apply_ops_Cons)
  next
    case False
    with Cons.prems have "Smooth \<in> set ops" by auto
    with Cons.IH [OF rest] show ?thesis by (simp add: apply_ops_Cons)
  qed
qed

lemma apply_ops_time_after_record:
  "no_wrap v ops \<Longrightarrow> Record e sz \<in> set ops \<Longrightarrow> ucast e < sz \<Longrightarrow> 0 < e \<Longrightarrow>
   1 \<le> time (apply_ops v ops)"
proof (induction ops arbitrary: v)
  case Nil
  then show ?case by simp
next
  case (Cons x ops)
  from Cons.prems(1) have one: "no_wrap v [x]" and rest: "no_wrap (apply_op v x) ops"
    by (simp_all add: no_wrap_Cons [of v x ops])
  show ?case
  proof (cases "x = Record e sz")
    case True
    from one True Cons.prems(3) have fit: "unat (time v) + unat e < 2 ^ 64" by simp
    from Cons.prems(4) have "1 \<le> (ucast e :: size_t)"
      by (simp add: word_le_nat_alt word_less_nat_alt unat_ucast_32_64)
    then have "1 \<le> time (apply_op v x)"
      using word_ge_1_add [of "time v" "ucast e"] fit True Cons.prems(3)
      by (simp add: record_sample_accepted unat_ucast_32_64)
    with apply_ops_keep_positive [OF rest] show ?thesis by (simp add: apply_ops_Cons)
  next
    case False
    with Cons.prems(2) have "Record e sz \<in> set ops" by auto
    from Cons.IH [OF rest this Cons.prems(3) Cons.prems(4)] show ?thesis
      by (simp add: apply_ops_Cons)
  qed
qed

subsection \<open>The score and the threshold in closed form\<close>

lemma div_le_self_real: "0 \<le> t \<Longrightarrow> 1 \<le> b \<Longrightarrow> t / b \<le> (t :: real)"
proof -
  assume "0 \<le> t" and "1 \<le> b"
  then have "t / b \<le> t / 1" by (intro divide_left_mono) simp_all
  then show ?thesis by simp
qed

lemma sqrt_bound: "0 \<le> c \<Longrightarrow> c \<le> 2 ^ 64 \<Longrightarrow> sqrt c \<le> 2 ^ 64"
proof -
  assume "0 \<le> c" and "c \<le> 2 ^ 64"
  then have "sqrt c \<le> sqrt ((2 ^ 32)\<^sup>2)" by (intro real_sqrt_le_mono) simp
  also have "\<dots> = 2 ^ 32" by (simp only: real_sqrt_abs) simp
  also have "\<dots> \<le> (2 ^ 64 :: real)" by (rule power_increasing) simp_all
  finally show ?thesis .
qed

lemma round_double_0: "round_double 0 = Num 0"
  by (simp add: round_double_def)

lemma to_double_0: "to_double 0 = Num 0"
  by (simp add: to_double_def round_double_0)

lemma to_double_bounds:
  "\<exists>r. to_double w = Num r \<and> 0 \<le> r \<and> r \<le> 2 ^ 64 \<and> (w \<noteq> 0 \<longrightarrow> 1 \<le> r)"
proof -
  have "unat w < 2 ^ 64" using unsigned_less [of w] by simp
  then have le: "real (unat w) \<le> 2 ^ 64"
    by (metis less_imp_le of_nat_le_iff of_nat_numeral of_nat_power)
  have one: "1 \<le> real (unat w)" if "w \<noteq> 0"
  proof -
    from that have "(1 :: nat) \<le> unat w" by (simp add: Suc_le_eq unat_gt_0)
    then have "real 1 \<le> real (unat w)" by (simp only: of_nat_le_iff)
    then show ?thesis by simp
  qed
  have nn: "0 \<le> real (unat w)" by (rule of_nat_0_le_iff)
  obtain r where r: "round_double (real (unat w)) = Num r" "0 \<le> r" "r \<le> 2 ^ 64"
      "1 \<le> real (unat w) \<longrightarrow> 1 \<le> r"
    using round_double_bounds [OF nn le] by auto
  from r one show ?thesis
    unfolding to_double_def by blast
qed

lemma to_double_small: "unat w < 2 ^ 53 \<Longrightarrow> to_double w = Num (real (unat w))"
  unfolding to_double_def by (rule round_double_of_nat)

text \<open>The score is a number when bytes and count are nonzero, and not otherwise.\<close>

lemma score_number:
  assumes "bytes v \<noteq> 0" and "count v \<noteq> 0"
  shows "\<exists>r. score v = Num r \<and> 0 \<le> r"
proof -
  obtain t where t: "to_double (time v) = Num t" "0 \<le> t" "t \<le> 2 ^ 64"
    using to_double_bounds [of "time v"] by blast
  obtain b where b: "to_double (bytes v) = Num b" "1 \<le> b"
    using to_double_bounds [of "bytes v"] assms(1) by blast
  obtain c where c: "to_double (count v) = Num c" "1 \<le> c" "c \<le> 2 ^ 64"
    using to_double_bounds [of "count v"] assms(2) by blast
  have "t / b \<le> t" using t(2) b(2) by (rule div_le_self_real)
  with t have q: "0 \<le> t / b" "t / b \<le> 2 ^ 64" using b(2) by simp_all
  obtain m where m: "round_double (t / b) = Num m" "0 \<le> m" "m \<le> 2 ^ 64"
    using round_double_bounds [OF q(1) q(2)] by auto
  have sq: "1 \<le> sqrt c" "sqrt c \<le> 2 ^ 64"
    using c(2) sqrt_bound [of c] c(3) by simp_all
  obtain r where r: "round_double (sqrt c) = Num r" "1 \<le> r"
    using round_double_bounds [of "sqrt c" 64] sq by auto
  have "m / r \<le> m" using m(2) r(2) by (rule div_le_self_real)
  with m have g: "0 \<le> m / r" "m / r \<le> 2 ^ 64" using r(2) by simp_all
  obtain g where gg: "round_double (m / r) = Num g" "0 \<le> g" "g \<le> 2 ^ 64"
    using round_double_bounds [OF g(1) g(2)] by auto
  have sum: "0 \<le> m + g" "m + g \<le> 2 ^ 65" using m gg by simp_all
  obtain z where z: "round_double (m + g) = Num z" "0 \<le> z"
    using round_double_bounds [OF sum(1) sum(2)] by auto
  have "score v = Num z"
    using b(2) c(2) r(2) by (simp add: score_def Let_def t(1) b(1) c(1) m(1) r(1) gg(1) z(1))
  with z(2) show ?thesis by blast
qed

lemma score_not_number:
  assumes "bytes v = 0 \<or> count v = 0"
  shows "score v = NaN \<or> score v = PosInf"
proof -
  obtain t where t: "to_double (time v) = Num t" "0 \<le> t" "t \<le> 2 ^ 64"
    using to_double_bounds [of "time v"] by blast
  obtain c where c: "to_double (count v) = Num c" "0 \<le> c" "c \<le> 2 ^ 64"
    using to_double_bounds [of "count v"] by blast
  show ?thesis
  proof (cases "bytes v = 0")
    case True
    have "sqrt c \<le> 2 ^ 64" using c(2) c(3) by (rule sqrt_bound)
    then obtain r where r: "round_double (sqrt c) = Num r" "0 \<le> r"
      using round_double_bounds [of "sqrt c" 64] c(2) by auto
    show ?thesis
      using t(2) c(2) r(2)
      by (simp add: score_def Let_def True to_double_0 t(1) c(1) r(1))
  next
    case False
    with assms have cz: "count v = 0" by simp
    obtain b where b: "to_double (bytes v) = Num b" "1 \<le> b"
      using to_double_bounds [of "bytes v"] False by blast
    have "t / b \<le> t" using t(2) b(2) by (rule div_le_self_real)
    with t have q: "0 \<le> t / b" "t / b \<le> 2 ^ 64" using b(2) by simp_all
    obtain m where m: "round_double (t / b) = Num m" "0 \<le> m"
      using round_double_bounds [OF q(1) q(2)] by auto
    show ?thesis
      using b(2) m(2)
      by (simp add: score_def Let_def cz to_double_0 t(1) b(1) m(1) round_double_0)
  qed
qed

lemma score_all_zero: "time v = 0 \<Longrightarrow> bytes v = 0 \<Longrightarrow> score v = NaN"
  by (simp add: score_def Let_def to_double_0)

lemma score_initial: "v \<in> set (variants initial) \<Longrightarrow> score v = NaN"
  by (auto simp: initial_def Variant_def score_all_zero)


text \<open>The scores of some variants, each operation rounded in its binade.\<close>

lemma score_1_2_1:
  assumes "time v = 1" and "bytes v = 2" and "count v = 1"
  shows "score v = Num (1)"
proof -
  have conv: "to_double 1 = Num 1" "to_double 2 = Num 2" "to_double 1 = Num 1"
    by (simp_all add: to_double_small)
  have mean: "ddiv (Num 1) (Num 2) = Num (1 / 2)"
    using round_double_binade [of "1 / 2" "- 1"]
    by (simp add: powr_neg_numeral round_to_even_def Let_def)
  have root: "dsqrt (Num 1) = Num 1"
    using round_double_of_nat [of 1] by simp
  have sigma: "ddiv (Num (1 / 2)) (Num 1) = Num (1 / 2)"
    using round_double_binade [of "(1 / 2) / 1" "- 1"]
    by (simp add: powr_neg_numeral round_to_even_def Let_def)
  have sum: "dadd (Num (1 / 2)) (Num (1 / 2)) = Num (1)"
    using round_double_binade [of "(1 / 2) + (1 / 2)" "0"]
    by (simp add: powr_neg_numeral round_to_even_def Let_def)
  show ?thesis
    by (simp only: score_def Let_def assms conv mean root sigma sum)
qed

lemma score_3_4_1:
  assumes "time v = 3" and "bytes v = 4" and "count v = 1"
  shows "score v = Num (3 / 2)"
proof -
  have conv: "to_double 3 = Num 3" "to_double 4 = Num 4" "to_double 1 = Num 1"
    by (simp_all add: to_double_small)
  have mean: "ddiv (Num 3) (Num 4) = Num (3 / 4)"
    using round_double_binade [of "3 / 4" "- 1"]
    by (simp add: powr_neg_numeral round_to_even_def Let_def)
  have root: "dsqrt (Num 1) = Num 1"
    using round_double_of_nat [of 1] by simp
  have sigma: "ddiv (Num (3 / 4)) (Num 1) = Num (3 / 4)"
    using round_double_binade [of "(3 / 4) / 1" "- 1"]
    by (simp add: powr_neg_numeral round_to_even_def Let_def)
  have sum: "dadd (Num (3 / 4)) (Num (3 / 4)) = Num (3 / 2)"
    using round_double_binade [of "(3 / 4) + (3 / 4)" "0"]
    by (simp add: powr_neg_numeral round_to_even_def Let_def)
  show ?thesis
    by (simp only: score_def Let_def assms conv mean root sigma sum)
qed

lemma score_1_4_1:
  assumes "time v = 1" and "bytes v = 4" and "count v = 1"
  shows "score v = Num (1 / 2)"
proof -
  have conv: "to_double 1 = Num 1" "to_double 4 = Num 4" "to_double 1 = Num 1"
    by (simp_all add: to_double_small)
  have mean: "ddiv (Num 1) (Num 4) = Num (1 / 4)"
    using round_double_binade [of "1 / 4" "- 2"]
    by (simp add: powr_neg_numeral round_to_even_def Let_def)
  have root: "dsqrt (Num 1) = Num 1"
    using round_double_of_nat [of 1] by simp
  have sigma: "ddiv (Num (1 / 4)) (Num 1) = Num (1 / 4)"
    using round_double_binade [of "(1 / 4) / 1" "- 2"]
    by (simp add: powr_neg_numeral round_to_even_def Let_def)
  have sum: "dadd (Num (1 / 4)) (Num (1 / 4)) = Num (1 / 2)"
    using round_double_binade [of "(1 / 4) + (1 / 4)" "- 1"]
    by (simp add: powr_neg_numeral round_to_even_def Let_def)
  show ?thesis
    by (simp only: score_def Let_def assms conv mean root sigma sum)
qed

lemma score_48_120000_4:
  assumes "time v = 48" and "bytes v = 120000" and "count v = 4"
  shows "score v = Num (5534023222112866 / 2 ^ 63)"
proof -
  have conv: "to_double 48 = Num 48" "to_double 120000 = Num 120000" "to_double 4 = Num 4"
    by (simp_all add: to_double_small)
  have mean: "ddiv (Num 48) (Num 120000) = Num (7378697629483821 / 2 ^ 64)"
    using round_double_binade [of "48 / 120000" "- 12"]
    by (simp add: powr_neg_numeral round_to_even_def Let_def)
  have root: "dsqrt (Num 4) = Num 2"
    using round_double_of_nat [of 2] by simp
  have sigma: "ddiv (Num (7378697629483821 / 2 ^ 64)) (Num 2) = Num (7378697629483821 / 2 ^ 65)"
    using round_double_binade [of "(7378697629483821 / 2 ^ 64) / 2" "- 13"]
    by (simp add: powr_neg_numeral round_to_even_def Let_def)
  have sum: "dadd (Num (7378697629483821 / 2 ^ 64)) (Num (7378697629483821 / 2 ^ 65)) = Num (5534023222112866 / 2 ^ 63)"
    using round_double_binade [of "(7378697629483821 / 2 ^ 64) + (7378697629483821 / 2 ^ 65)" "- 11"]
    by (simp add: powr_neg_numeral round_to_even_def Let_def)
  show ?thesis
    by (simp only: score_def Let_def assms conv mean root sigma sum)
qed

lemma score_9_30000_1:
  assumes "time v = 9" and "bytes v = 30000" and "count v = 1"
  shows "score v = Num (5534023222112865 / 2 ^ 63)"
proof -
  have conv: "to_double 9 = Num 9" "to_double 30000 = Num 30000" "to_double 1 = Num 1"
    by (simp_all add: to_double_small)
  have mean: "ddiv (Num 9) (Num 30000) = Num (5534023222112865 / 2 ^ 64)"
    using round_double_binade [of "9 / 30000" "- 12"]
    by (simp add: powr_neg_numeral round_to_even_def Let_def)
  have root: "dsqrt (Num 1) = Num 1"
    using round_double_of_nat [of 1] by simp
  have sigma: "ddiv (Num (5534023222112865 / 2 ^ 64)) (Num 1) = Num (5534023222112865 / 2 ^ 64)"
    using round_double_binade [of "(5534023222112865 / 2 ^ 64) / 1" "- 12"]
    by (simp add: powr_neg_numeral round_to_even_def Let_def)
  have sum: "dadd (Num (5534023222112865 / 2 ^ 64)) (Num (5534023222112865 / 2 ^ 64)) = Num (5534023222112865 / 2 ^ 63)"
    using round_double_binade [of "(5534023222112865 / 2 ^ 64) + (5534023222112865 / 2 ^ 64)" "- 11"]
    by (simp add: powr_neg_numeral round_to_even_def Let_def)
  show ?thesis
    by (simp only: score_def Let_def assms conv mean root sigma sum)
qed

text \<open>A conversion that rounds: \<open>2 ^ 53 + 1\<close> lies halfway between two doubles.\<close>

lemma to_double_rounds: "to_double (2 ^ 53 + 1) = Num (2 ^ 53)"
  using round_double_binade [of "2 ^ 53 + 1" 53]
  by (simp add: to_double_def round_to_even_def Let_def)

lemma new_threshold_closed: "unat (new_threshold t) = min 255 ((256 + 2 * unat t) div 3)"
proof -
  define n where "n = unat t"
  have n: "n < 2 ^ 64" using unsigned_less [of t] by (simp add: n_def)
  have "real 256 * (1 - (1 - real n / real 256) / 1.5) = real (256 + 2 * n) / real 3"
    by (simp add: field_simps)
  then have "\<lfloor>real 256 * (1 - (1 - real n / real 256) / 1.5)\<rfloor> = int ((256 + 2 * n) div 3)"
    by (simp only: floor_divide_of_nat_eq)
  then have eq: "new_threshold t = min 255 (word_of_nat ((256 + 2 * n) div 3))"
    by (simp add: new_threshold_def probability_distribution_buckets_def Let_def n_def)
  have small: "(256 + 2 * n) div 3 < 2 ^ 64" using n by simp
  have "unat (word_of_nat ((256 + 2 * n) div 3) :: size_t) = (256 + 2 * n) div 3"
    using small by (simp add: unat_of_nat)
  then show ?thesis
    by (simp add: eq min_def word_le_nat_alt n_def)
qed

lemma new_threshold_le: "new_threshold t \<le> 255"
  by (simp add: word_le_nat_alt new_threshold_closed)

lemma new_threshold_ge: "t \<le> 255 \<Longrightarrow> t \<le> new_threshold t"
  by (simp add: word_le_nat_alt new_threshold_closed)

lemma new_threshold_formula:
  "unat (new_threshold t) = min 255 (nat \<lfloor>256 * (1 - (1 - real (unat t) / 256) / 1.5)\<rfloor>)"
proof -
  have "256 * (1 - (1 - real (unat t) / 256) / 1.5) = real (256 + 2 * unat t) / real 3"
    by (simp add: field_simps)
  then have "\<lfloor>256 * (1 - (1 - real (unat t) / 256) / 1.5)\<rfloor> = int ((256 + 2 * unat t) div 3)"
    by (simp only: floor_divide_of_nat_eq)
  then show ?thesis
    by (simp add: new_threshold_closed)
qed

lemma reoptimize_fields:
  "exploration_probability_threshold (snd (reoptimize s)) =
     new_threshold (exploration_probability_threshold s)"
  "exploration_count (snd (reoptimize s)) = 0"
  "call_count (snd (reoptimize s)) = call_count s"
  by (cases "select_loop (variants s)"; simp add: reoptimize_def Let_def)+

lemma explore_threshold:
  "exploration_probability_threshold (snd (explore s size' time1 time2)) =
     (if exploration_count s = num_explorations_before_optimize
      then new_threshold (exploration_probability_threshold s)
      else exploration_probability_threshold s)"
  by (simp add: explore_unfold Let_def reoptimize_fields)

lemma call_threshold:
  "exploration_probability_threshold (snd (call s size' time1 time2)) =
     (if printed (fst (call s size' time1 time2)) = None
      then exploration_probability_threshold s
      else new_threshold (exploration_probability_threshold s))"
  by (simp add: call_unfold explore_unfold Let_def reoptimize_fields)

lemma call_threshold_grows:
  assumes "exploration_probability_threshold s \<le> 255"
  shows "exploration_probability_threshold s \<le>
           exploration_probability_threshold (snd (call s size' time1 time2)) \<and>
         exploration_probability_threshold (snd (call s size' time1 time2)) \<le> 255"
  using assms new_threshold_ge [OF assms] new_threshold_le [of "exploration_probability_threshold s"]
  by (simp add: call_threshold)

lemma run_Cons_snd:
  "snd (run s ((size', time1, time2) # rest)) = snd (run (snd (call s size' time1 time2)) rest)"
  by (simp split: prod.splits)

lemma run_threshold_grows:
  "exploration_probability_threshold s \<le> 255 \<Longrightarrow>
   exploration_probability_threshold s \<le> exploration_probability_threshold (snd (run s inputs)) \<and>
   exploration_probability_threshold (snd (run s inputs)) \<le> 255"
proof (induction inputs arbitrary: s)
  case Nil
  then show ?case by simp
next
  case (Cons x inputs)
  obtain size' time1 time2 where x: "x = (size', time1, time2)" by (cases x) auto
  let ?s = "snd (call s size' time1 time2)"
  have r: "snd (run s (x # inputs)) = snd (run ?s inputs)"
    by (simp only: x run_Cons_snd)
  from call_threshold_grows [OF Cons.prems, of size' time1 time2]
  have le: "exploration_probability_threshold s \<le> exploration_probability_threshold ?s"
    and bd: "exploration_probability_threshold ?s \<le> 255" by simp_all
  from Cons.IH [OF bd] le show ?case
    by (auto simp: r)
qed

lemma run_append: "snd (run s (xs @ ys)) = snd (run (snd (run s xs)) ys)"
proof (induction xs arbitrary: s)
  case Nil
  then show ?case by simp
next
  case (Cons x xs)
  obtain size' time1 time2 where x: "x = (size', time1, time2)" by (cases x) auto
  show ?case
    unfolding x append_Cons run_Cons_snd by (rule Cons.IH)
qed

subsection \<open>The reoptimization\<close>

lemma reoptimize_selected:
  assumes "length vs = num_cells" and "variants s = vs"
  shows "\<exists>b<num_cells.
           selected_variant (snd (reoptimize s)) = func (vs ! b) \<and>
           fst (reoptimize s) = kind (vs ! b) \<and>
           (if \<exists>j<num_cells. dless (score (vs ! j)) (Num 1000000000)
            then dless (score (vs ! b)) (Num 1000000000) \<and>
                 (\<forall>j<num_cells. \<not> dless (score (vs ! j)) (score (vs ! b))) \<and>
                 (\<forall>j<b. dless (score (vs ! j)) (Num 1000000000) \<longrightarrow>
                        dless (score (vs ! b)) (score (vs ! j)))
            else b = 0)"
proof -
  obtain ws b bs where sel: "select_loop vs = (ws, b, bs)"
    by (cases "select_loop vs") auto
  from select_prefix [of num_cells vs] assms(1) sel
  have ws: "ws = map smooth vs"
    and inv: "(b = 0 \<and> bs = Num 1000000000 \<and>
               (\<forall>i<num_cells. \<not> dless (score (vs ! i)) (Num 1000000000))) \<or>
              (b < num_cells \<and> bs = score (vs ! b) \<and> dless bs (Num 1000000000) \<and>
               (\<forall>i<num_cells. \<not> dless (score (vs ! i)) bs) \<and>
               (\<forall>i<b. dless (score (vs ! i)) (Num 1000000000) \<longrightarrow> dless bs (score (vs ! i))))"
    by (simp_all add: select_loop_def)
  from inv have b: "b < num_cells" by (auto simp: num_cells_def)
  then have at: "ws ! b = smooth (vs ! b)" using assms(1) by (simp add: ws)
  have sv: "selected_variant (snd (reoptimize s)) = func (vs ! b)"
    and pr: "fst (reoptimize s) = kind (vs ! b)"
    by (simp_all add: reoptimize_def Let_def assms(2) sel at smooth_fields)
  from inv have "if \<exists>j<num_cells. dless (score (vs ! j)) (Num 1000000000)
            then dless (score (vs ! b)) (Num 1000000000) \<and>
                 (\<forall>j<num_cells. \<not> dless (score (vs ! j)) (score (vs ! b))) \<and>
                 (\<forall>j<b. dless (score (vs ! j)) (Num 1000000000) \<longrightarrow>
                        dless (score (vs ! b)) (score (vs ! j)))
            else b = 0"
    by auto
  with b sv pr show ?thesis by blast
qed

lemma explore_counter:
  "exploration_count (snd (explore s size' time1 time2)) =
     (if exploration_count s = num_explorations_before_optimize then 0 else exploration_count s + 1)"
  by (simp add: explore_unfold Let_def reoptimize_fields)

lemma explore_length:
  "length (variants s) = num_cells \<Longrightarrow> length (variants (snd (explore s size' time1 time2))) = num_cells"
  by (simp add: explore_unfold Let_def reoptimize_variants)

lemma counter_step: "(c :: size_t) \<le> 256 \<Longrightarrow> c \<noteq> 256 \<Longrightarrow> c + 1 \<le> 256"
  by (simp add: inc_le)

lemma call_invariant:
  assumes "length (variants s) = num_cells \<and> exploration_count s \<le> 256"
  shows "length (variants (snd (call s size' time1 time2))) = num_cells \<and>
         exploration_count (snd (call s size' time1 time2)) \<le> 256"
  using assms counter_step [of "exploration_count s"]
  by (simp add: call_unfold explore_counter explore_length num_explorations_before_optimize_def)

lemma run_invariant:
  "length (variants s) = num_cells \<and> exploration_count s \<le> 256 \<Longrightarrow>
   length (variants (snd (run s inputs))) = num_cells \<and>
   exploration_count (snd (run s inputs)) \<le> 256"
proof (induction inputs arbitrary: s)
  case Nil
  then show ?case by simp
next
  case (Cons x inputs)
  obtain size' time1 time2 where x: "x = (size', time1, time2)" by (cases x) auto
  show ?case
    unfolding x run_Cons_snd
    by (rule Cons.IH) (rule call_invariant [OF Cons.prems])
qed

lemma upt_num_cells: "[0..<num_cells] = [0, 1, 2, 3, 4, 5, 6, 7, 8, 9, 10, 11, 12, 13, 14, 15]"
  unfolding num_cells_def by code_simp

lemma of_nat_ne_256: "m < 256 \<Longrightarrow> (of_nat m :: size_t) \<noteq> 256"
proof -
  assume m: "m < 256"
  then have "m < 2 ^ LENGTH(64)" by simp
  then have "unat (of_nat m :: size_t) = m" by (rule of_nat_inverse [OF refl])
  with m show ?thesis by (auto simp: word_unat_eq_iff)
qed

lemma explore_rejected:
  assumes "exploration_count s \<noteq> 256" and "\<not> ucast (time2 - time1) < size'"
  shows "snd (explore s size' time1 time2) = s\<lparr>exploration_count := exploration_count s + 1\<rparr>"
  using assms
  by (simp add: explore_no_reoptimization num_explorations_before_optimize_def
      record_sample_rejected)

lemma call_rejected:
  assumes "m < 256"
  shows "snd (call (initial\<lparr>call_count := of_nat m, exploration_count := of_nat m\<rparr>) 30000 0 30000) =
           initial\<lparr>call_count := of_nat (Suc m), exploration_count := of_nat (Suc m)\<rparr>"
proof -
  let ?s = "initial\<lparr>call_count := of_nat m, exploration_count := of_nat m\<rparr>"
  have thr: "exploration_probability_threshold ?s = 0" by (simp add: initial_def)
  have c: "call ?s 30000 0 30000 = explore (?s\<lparr>call_count := call_count ?s + 1\<rparr>) 30000 0 30000"
    by (simp add: call_unfold thr)
  have ne: "exploration_count (?s\<lparr>call_count := call_count ?s + 1\<rparr>) \<noteq> 256"
    using of_nat_ne_256 [OF assms] by simp
  have rej: "\<not> (ucast (30000 - 0 :: UInt32) :: size_t) < 30000" by simp
  show ?thesis
    unfolding c explore_rejected [OF ne rej] by (simp add: add.commute)
qed

lemma run_rejected:
  "m + n \<le> 256 \<Longrightarrow>
   snd (run (initial\<lparr>call_count := of_nat m, exploration_count := of_nat m\<rparr>)
          (replicate n (30000, 0, 30000))) =
     initial\<lparr>call_count := of_nat (m + n), exploration_count := of_nat (m + n)\<rparr>"
proof (induction n arbitrary: m)
  case 0
  then show ?case by simp
next
  case (Suc n)
  then have m: "m < 256" and rest: "Suc m + n \<le> 256" by simp_all
  have "snd (run (initial\<lparr>call_count := of_nat m, exploration_count := of_nat m\<rparr>)
          (replicate (Suc n) (30000, 0, 30000))) =
        snd (run (initial\<lparr>call_count := of_nat (Suc m), exploration_count := of_nat (Suc m)\<rparr>)
          (replicate n (30000, 0, 30000)))"
    unfolding replicate_Suc run_Cons_snd call_rejected [OF m] ..
  also have "\<dots> = initial\<lparr>call_count := of_nat (Suc m + n), exploration_count := of_nat (Suc m + n)\<rparr>"
    by (rule Suc.IH [OF rest])
  finally show ?case by simp
qed

lemma run_256_rejected:
  "snd (run initial (replicate 256 (30000, 0, 30000))) =
     initial\<lparr>call_count := 256, exploration_count := 256\<rparr>"
proof -
  have "initial = initial\<lparr>call_count := of_nat 0, exploration_count := of_nat 0\<rparr>"
    by (simp add: initial_def)
  then have "snd (run initial (replicate 256 (30000, 0, 30000))) =
      snd (run (initial\<lparr>call_count := of_nat 0, exploration_count := of_nat 0\<rparr>)
        (replicate 256 (30000, 0, 30000)))"
    by simp
  also have "\<dots> = initial\<lparr>call_count := of_nat (0 + 256), exploration_count := of_nat (0 + 256)\<rparr>"
    by (rule run_rejected) simp
  finally show ?thesis by simp
qed

section \<open>The claims\<close>

subsection \<open>C1\<close>

text \<open>
  C1, as the code has it. An exploration reoptimizes exactly when the exploration counter
  holds 256 as it starts, that is once 256 explorations have been counted since the last
  reset; in a sequential execution from the initial dispatcher the counter never exceeds 256.
  The reoptimization resets the counter to 0 and stores the function of the entry at the
  best index. With the scores read from the variants as they are after the sample of this
  exploration and before their decay: if some score is below \<open>1e9\<close>, the best index is the first
  one whose score no other score is below; if none is (a variant with bytes or count 0 has
  the score NaN or infinity, which is below nothing), the best index is the initial 0.
\<close>

theorem reoptimization_selects:
  "(length (variants s) = num_cells \<longrightarrow>
     (let i = hash_index (exploration_count s);
          vs = (variants s)[i := record_sample (time2 - time1) size' (variants s ! i)];
          out = fst (explore s size' time1 time2);
          s' = snd (explore s size' time1 time2)
      in (printed out \<noteq> None \<longleftrightarrow> exploration_count s = 256) \<and>
         (exploration_count s \<noteq> 256 \<longrightarrow>
            exploration_count s' = exploration_count s + 1 \<and>
            selected_variant s' = selected_variant s) \<and>
         (exploration_count s = 256 \<longrightarrow>
            exploration_count s' = 0 \<and>
            (\<exists>b<num_cells.
               selected_variant s' = func (vs ! b) \<and>
               printed out = Some (kind (vs ! b)) \<and>
               (if \<exists>j<num_cells. dless (score (vs ! j)) (Num 1000000000)
                then dless (score (vs ! b)) (Num 1000000000) \<and>
                     (\<forall>j<num_cells. \<not> dless (score (vs ! j)) (score (vs ! b))) \<and>
                     (\<forall>j<b. dless (score (vs ! j)) (Num 1000000000) \<longrightarrow>
                            dless (score (vs ! b)) (score (vs ! j)))
                else b = 0))))) \<and>
   length (variants (snd (run initial inputs))) = num_cells \<and>
   exploration_count (snd (run initial inputs)) \<le> 256"
proof -
  have "length (variants initial) = num_cells \<and> exploration_count initial \<le> 256"
    by (simp add: initial_def num_cells_def)
  from run_invariant [OF this, of inputs]
  have reach: "length (variants (snd (run initial inputs))) = num_cells \<and>
      exploration_count (snd (run initial inputs)) \<le> 256" .
  define i where "i = hash_index (exploration_count s)"
  define vs where "vs = (variants s)[i := record_sample (time2 - time1) size' (variants s ! i)]"
  define s1 where "s1 = s\<lparr>exploration_count := exploration_count s + 1, variants := vs\<rparr>"
  have fire: "explore s size' time1 time2 =
      (\<lparr>invoked = func (variants s ! i), explored = Some i, printed = Some (fst (reoptimize s1))\<rparr>,
       snd (reoptimize s1))" if "exploration_count s = 256"
    using that
    by (simp add: explore_unfold Let_def i_def vs_def s1_def num_explorations_before_optimize_def)
  have quiet: "explore s size' time1 time2 =
      (\<lparr>invoked = func (variants s ! i), explored = Some i, printed = None\<rparr>, s1)"
    if "exploration_count s \<noteq> 256"
    using that
    by (simp add: explore_unfold Let_def i_def vs_def s1_def num_explorations_before_optimize_def)
  have sel: "\<exists>b<num_cells.
               selected_variant (snd (reoptimize s1)) = func (vs ! b) \<and>
               fst (reoptimize s1) = kind (vs ! b) \<and>
               (if \<exists>j<num_cells. dless (score (vs ! j)) (Num 1000000000)
                then dless (score (vs ! b)) (Num 1000000000) \<and>
                     (\<forall>j<num_cells. \<not> dless (score (vs ! j)) (score (vs ! b))) \<and>
                     (\<forall>j<b. dless (score (vs ! j)) (Num 1000000000) \<longrightarrow>
                            dless (score (vs ! b)) (score (vs ! j)))
                else b = 0)"
    if "length (variants s) = num_cells"
    by (rule reoptimize_selected) (simp_all add: vs_def s1_def that)
  have main: "(printed (fst (explore s size' time1 time2)) \<noteq> None \<longleftrightarrow> exploration_count s = 256) \<and>
         (exploration_count s \<noteq> 256 \<longrightarrow>
            exploration_count (snd (explore s size' time1 time2)) = exploration_count s + 1 \<and>
            selected_variant (snd (explore s size' time1 time2)) = selected_variant s) \<and>
         (exploration_count s = 256 \<longrightarrow>
            exploration_count (snd (explore s size' time1 time2)) = 0 \<and>
            (\<exists>b<num_cells.
               selected_variant (snd (explore s size' time1 time2)) = func (vs ! b) \<and>
               printed (fst (explore s size' time1 time2)) = Some (kind (vs ! b)) \<and>
               (if \<exists>j<num_cells. dless (score (vs ! j)) (Num 1000000000)
                then dless (score (vs ! b)) (Num 1000000000) \<and>
                     (\<forall>j<num_cells. \<not> dless (score (vs ! j)) (score (vs ! b))) \<and>
                     (\<forall>j<b. dless (score (vs ! j)) (Num 1000000000) \<longrightarrow>
                            dless (score (vs ! b)) (score (vs ! j)))
                else b = 0)))"
    if len: "length (variants s) = num_cells"
  proof (cases "exploration_count s = 256")
    case True
    show ?thesis
      using sel [OF len] True by (simp add: fire [OF True] reoptimize_fields)
  next
    case False
    then show ?thesis
      by (simp add: quiet [OF False] s1_def)
  qed
  show ?thesis
    unfolding Let_def i_def [symmetric] vs_def [symmetric]
    using main reach by blast
qed

text \<open>
  Three explorations. In the first the scores of entries 0 and 6 are the doubles
  \<open>0.0006000000000000001\<close> and \<open>0.0006\<close> (the exact values \<open>48 / 120000 * (1 + 1 / 2)\<close> and
  \<open>9 / 30000 * 2\<close> are equal; the rounded ones are not), and entry 6 is stored. In the second
  entries 1 and 2 tie at the least score and the first of them is stored. The third does not
  reoptimize.
\<close>

theorem reoptimization_selects_witness:
  "length (variants (initial\<lparr>exploration_count := 256, variants := (variants initial)
      [0 := \<lparr>func = memcpy, time = 48, bytes = 120000, count = 4, kind = 1\<rparr>]\<rparr>)) = num_cells \<and>
   exploration_count (initial\<lparr>exploration_count := 256, variants := (variants initial)
      [0 := \<lparr>func = memcpy, time = 48, bytes = 120000, count = 4, kind = 1\<rparr>]\<rparr>) = 256 \<and>
   score \<lparr>func = memcpy, time = 48, bytes = 120000, count = 4, kind = 1\<rparr> =
     Num (5534023222112866 / 2 ^ 63) \<and>
   score \<lparr>func = glibc_memcpy_ssse3, time = 9, bytes = 30000, count = 1, kind = 23\<rparr> =
     Num (5534023222112865 / 2 ^ 63) \<and>
   explore (initial\<lparr>exploration_count := 256, variants := (variants initial)
      [0 := \<lparr>func = memcpy, time = 48, bytes = 120000, count = 4, kind = 1\<rparr>]\<rparr>) 30000 0 9 =
     (\<lparr>invoked = glibc_memcpy_ssse3, explored = Some 6, printed = Some 23\<rparr>,
      initial\<lparr>exploration_count := 0, exploration_probability_threshold := 85,
        selected_variant := glibc_memcpy_ssse3,
        variants := map smooth ((variants initial)
          [0 := \<lparr>func = memcpy, time = 48, bytes = 120000, count = 4, kind = 1\<rparr>,
           6 := \<lparr>func = glibc_memcpy_ssse3, time = 9, bytes = 30000, count = 1, kind = 23\<rparr>])\<rparr>) \<and>
   length (variants (initial\<lparr>exploration_count := 256, variants := (variants initial)
      [0 := \<lparr>func = memcpy, time = 3, bytes = 4, count = 1, kind = 1\<rparr>,
       1 := \<lparr>func = memcpy_erms, time = 1, bytes = 4, count = 1, kind = 4\<rparr>,
       2 := \<lparr>func = memcpy_fast_sse, time = 1, bytes = 4, count = 1, kind = 10\<rparr>]\<rparr>)) = num_cells \<and>
   exploration_count (initial\<lparr>exploration_count := 256, variants := (variants initial)
      [0 := \<lparr>func = memcpy, time = 3, bytes = 4, count = 1, kind = 1\<rparr>,
       1 := \<lparr>func = memcpy_erms, time = 1, bytes = 4, count = 1, kind = 4\<rparr>,
       2 := \<lparr>func = memcpy_fast_sse, time = 1, bytes = 4, count = 1, kind = 10\<rparr>]\<rparr>) = 256 \<and>
   map score (take 3 (variants (initial\<lparr>exploration_count := 256, variants := (variants initial)
      [0 := \<lparr>func = memcpy, time = 3, bytes = 4, count = 1, kind = 1\<rparr>,
       1 := \<lparr>func = memcpy_erms, time = 1, bytes = 4, count = 1, kind = 4\<rparr>,
       2 := \<lparr>func = memcpy_fast_sse, time = 1, bytes = 4, count = 1, kind = 10\<rparr>]\<rparr>))) = [Num (3 / 2), Num (1 / 2), Num (1 / 2)] \<and>
   dless (score (variants (initial\<lparr>exploration_count := 256, variants := (variants initial)
      [0 := \<lparr>func = memcpy, time = 3, bytes = 4, count = 1, kind = 1\<rparr>,
       1 := \<lparr>func = memcpy_erms, time = 1, bytes = 4, count = 1, kind = 4\<rparr>,
       2 := \<lparr>func = memcpy_fast_sse, time = 1, bytes = 4, count = 1, kind = 10\<rparr>]\<rparr>) ! 1)) (Num 1000000000) \<and>
   explore (initial\<lparr>exploration_count := 256, variants := (variants initial)
      [0 := \<lparr>func = memcpy, time = 3, bytes = 4, count = 1, kind = 1\<rparr>,
       1 := \<lparr>func = memcpy_erms, time = 1, bytes = 4, count = 1, kind = 4\<rparr>,
       2 := \<lparr>func = memcpy_fast_sse, time = 1, bytes = 4, count = 1, kind = 10\<rparr>]\<rparr>) 30000 0 30000 =
     (\<lparr>invoked = glibc_memcpy_ssse3, explored = Some 6, printed = Some 4\<rparr>,
      initial\<lparr>exploration_count := 0, exploration_probability_threshold := 85,
        selected_variant := memcpy_erms,
        variants := map smooth ((variants initial)
          [0 := \<lparr>func = memcpy, time = 3, bytes = 4, count = 1, kind = 1\<rparr>,
           1 := \<lparr>func = memcpy_erms, time = 1, bytes = 4, count = 1, kind = 4\<rparr>,
           2 := \<lparr>func = memcpy_fast_sse, time = 1, bytes = 4, count = 1, kind = 10\<rparr>])\<rparr>) \<and>
   length (variants initial) = num_cells \<and>
   exploration_count initial \<noteq> 256 \<and>
   printed (fst (explore initial 30000 0 1)) = None \<and>
   exploration_count (snd (explore initial 30000 0 1)) = 1 \<and>
   selected_variant (snd (explore initial 30000 0 1)) = memcpy"
  using reoptimization_selects [where s = "initial\<lparr>exploration_count := 256, variants := (variants initial)
      [0 := \<lparr>func = memcpy, time = 48, bytes = 120000, count = 4, kind = 1\<rparr>]\<rparr>"
      and size' = 30000 and ?time1.0 = 0 and ?time2.0 = 9 and inputs = "[]"]
    reoptimization_selects [where s = "initial\<lparr>exploration_count := 256, variants := (variants initial)
      [0 := \<lparr>func = memcpy, time = 3, bytes = 4, count = 1, kind = 1\<rparr>,
       1 := \<lparr>func = memcpy_erms, time = 1, bytes = 4, count = 1, kind = 4\<rparr>,
       2 := \<lparr>func = memcpy_fast_sse, time = 1, bytes = 4, count = 1, kind = 10\<rparr>]\<rparr>"
      and size' = 30000 and ?time1.0 = 0 and ?time2.0 = 30000 and inputs = "[]"]
    reoptimization_selects [where s = initial
      and size' = 30000 and ?time1.0 = 0 and ?time2.0 = 1 and inputs = "[]"]
  by (simp add: explore_unfold reoptimize_def select_loop_def select_step_def upt_num_cells
      Let_def initial_def Variant_def num_explorations_before_optimize_def hash_index_256
      hash_index_0 record_sample_def smooth_def word_unat_eq_iff new_threshold_closed
      score_all_zero score_48_120000_4 score_9_30000_1 score_3_4_1 score_1_4_1)

text \<open>
  C1 as stated fails. Take the sequential execution of 257 calls of 30000 bytes whose clock
  readings are 0 and 30000, so that every sample is rejected. After 256 of them the counter
  holds 256 and no variant has a score: each \<^verbatim>\<open>score()\<close> is NaN. The next call reoptimizes
  and stores \<open>memcpy\<close>, the function of entry 0, which no minimum of scores selects: the best
  index is still the 0 it was initialised with.
\<close>

theorem reoptimization_selects_counterexample:
  "map score (variants (snd (run initial (replicate 256 (30000, 0, 30000))))) =
     [NaN, NaN, NaN, NaN, NaN, NaN, NaN, NaN, NaN, NaN, NaN, NaN, NaN, NaN, NaN, NaN] \<and>
   \<not> dless (score (variants (snd (run initial (replicate 256 (30000, 0, 30000)))) ! 0))
            (Num 1000000000) \<and>
   exploration_count (snd (run initial (replicate 256 (30000, 0, 30000)))) = 256 \<and>
   call (snd (run initial (replicate 256 (30000, 0, 30000)))) 30000 0 30000 =
     (\<lparr>invoked = glibc_memcpy_ssse3, explored = Some 6, printed = Some 1\<rparr>,
      initial\<lparr>call_count := 257, exploration_count := 0, exploration_probability_threshold := 85,
        selected_variant := memcpy, variants := map smooth (variants initial)\<rparr>)"
proof -
  let ?s = "initial\<lparr>call_count := 256, exploration_count := 256\<rparr>"
  have a: "map score (variants ?s) =
      [NaN, NaN, NaN, NaN, NaN, NaN, NaN, NaN, NaN, NaN, NaN, NaN, NaN, NaN, NaN, NaN]"
    by (simp add: initial_def Variant_def score_all_zero)
  have b: "\<not> dless (score (variants ?s ! 0)) (Num 1000000000)"
    by (simp add: initial_def Variant_def score_all_zero)
  have c: "call ?s 30000 0 30000 =
     (\<lparr>invoked = glibc_memcpy_ssse3, explored = Some 6, printed = Some 1\<rparr>,
      initial\<lparr>call_count := 257, exploration_count := 0, exploration_probability_threshold := 85,
        selected_variant := memcpy, variants := map smooth (variants initial)\<rparr>)"
    by (simp add: call_unfold explore_unfold reoptimize_def select_loop_def select_step_def
      upt_num_cells Let_def initial_def Variant_def num_explorations_before_optimize_def
      hash_index_256 record_sample_def score_all_zero smooth_def word_unat_eq_iff
      new_threshold_closed)
  show ?thesis
    unfolding run_256_rejected using a b c by simp
qed

subsection \<open>C2\<close>

text \<open>
  C2, as the code has it. An exploration that does not reoptimize touches no variant but the
  one it timed. With elapsed time \<open>e\<close> and \<open>e < size\<close> that variant's count grows by 1, its
  bytes by the size and its time by \<open>e\<close>, each sum taken modulo \<open>2 ^ 64\<close>; unless the sum wraps,
  count and bytes become strictly greater, and time becomes strictly greater exactly when
  \<open>e\<close> is not 0. With \<open>e \<ge> size\<close> no variant changes.
\<close>

theorem explore_records:
  assumes "length (variants s) = num_cells"
    and "exploration_count s \<noteq> num_explorations_before_optimize"
  shows "let i = hash_index (exploration_count s);
             e = time2 - time1;
             v = variants s ! i;
             s' = snd (explore s size' time1 time2);
             v' = variants s' ! i
         in length (variants s') = num_cells \<and>
            (\<forall>j<num_cells. j \<noteq> i \<longrightarrow> variants s' ! j = variants s ! j) \<and>
            (ucast e < size' \<longrightarrow>
               v' = v\<lparr>count := count v + 1, bytes := bytes v + size', time := time v + ucast e\<rparr> \<and>
               unat (count v') = (unat (count v) + 1) mod 2 ^ 64 \<and>
               unat (bytes v') = (unat (bytes v) + unat size') mod 2 ^ 64 \<and>
               unat (time v') = (unat (time v) + unat e) mod 2 ^ 64 \<and>
               (unat (count v) + 1 < 2 ^ 64 \<longrightarrow> count v < count v') \<and>
               (unat (bytes v) + unat size' < 2 ^ 64 \<longrightarrow> bytes v < bytes v') \<and>
               (unat (time v) + unat e < 2 ^ 64 \<longrightarrow> (time v < time v' \<longleftrightarrow> e \<noteq> 0))) \<and>
            (\<not> ucast e < size' \<longrightarrow> variants s' = variants s)"
proof -
  define i where "i = hash_index (exploration_count s)"
  define e where "e = time2 - time1"
  define v where "v = variants s ! i"
  have i: "i < length (variants s)" using hash_index_less [of "exploration_count s"] assms(1)
    by (simp add: i_def)
  have s': "variants (snd (explore s size' time1 time2)) = (variants s)[i := record_sample e size' v]"
    by (simp add: explore_no_reoptimization [OF assms(2)] i_def e_def v_def)
  have at: "variants (snd (explore s size' time1 time2)) ! i = record_sample e size' v"
    using i by (simp add: s')
  have len: "length (variants (snd (explore s size' time1 time2))) = num_cells"
    using assms(1) by (simp add: s')
  have others: "\<forall>j<num_cells. j \<noteq> i \<longrightarrow> variants (snd (explore s size' time1 time2)) ! j = variants s ! j"
    by (simp add: s')
  have acc: "ucast e < size' \<longrightarrow>
      record_sample e size' v =
        v\<lparr>count := count v + 1, bytes := bytes v + size', time := time v + ucast e\<rparr> \<and>
      unat (count (record_sample e size' v)) = (unat (count v) + 1) mod 2 ^ 64 \<and>
      unat (bytes (record_sample e size' v)) = (unat (bytes v) + unat size') mod 2 ^ 64 \<and>
      unat (time (record_sample e size' v)) = (unat (time v) + unat e) mod 2 ^ 64 \<and>
      (unat (count v) + 1 < 2 ^ 64 \<longrightarrow> count v < count (record_sample e size' v)) \<and>
      (unat (bytes v) + unat size' < 2 ^ 64 \<longrightarrow> bytes v < bytes (record_sample e size' v)) \<and>
      (unat (time v) + unat e < 2 ^ 64 \<longrightarrow> (time v < time (record_sample e size' v) \<longleftrightarrow> e \<noteq> 0))"
  proof
    assume lt: "ucast e < size'"
    have nz: "size' \<noteq> 0" using lt by (auto simp: word_less_nat_alt)
    have c: "unat (count v) + 1 < 2 ^ 64 \<Longrightarrow> count v < count v + 1"
      using word_less_add_nowrap [of "count v" 1] by simp
    have b: "unat (bytes v) + unat size' < 2 ^ 64 \<Longrightarrow> bytes v < bytes v + size'"
      using word_less_add_nowrap [of "bytes v" size'] nz by simp
    have t: "unat (time v) + unat e < 2 ^ 64 \<Longrightarrow> time v < time v + ucast e \<longleftrightarrow> e \<noteq> 0"
      using word_less_add_nowrap [of "time v" "ucast e"]
      by (simp add: unat_ucast_32_64 ucast_32_64_eq_0)
    show "record_sample e size' v =
        v\<lparr>count := count v + 1, bytes := bytes v + size', time := time v + ucast e\<rparr> \<and>
      unat (count (record_sample e size' v)) = (unat (count v) + 1) mod 2 ^ 64 \<and>
      unat (bytes (record_sample e size' v)) = (unat (bytes v) + unat size') mod 2 ^ 64 \<and>
      unat (time (record_sample e size' v)) = (unat (time v) + unat e) mod 2 ^ 64 \<and>
      (unat (count v) + 1 < 2 ^ 64 \<longrightarrow> count v < count (record_sample e size' v)) \<and>
      (unat (bytes v) + unat size' < 2 ^ 64 \<longrightarrow> bytes v < bytes (record_sample e size' v)) \<and>
      (unat (time v) + unat e < 2 ^ 64 \<longrightarrow> (time v < time (record_sample e size' v) \<longleftrightarrow> e \<noteq> 0))"
      using c b t by (simp add: record_sample_accepted [OF lt] unat_word_ariths unat_ucast_32_64)
  qed
  have rej: "\<not> ucast e < size' \<longrightarrow> variants (snd (explore s size' time1 time2)) = variants s"
    by (simp add: s' record_sample_rejected v_def)
  show ?thesis
    unfolding Let_def i_def [symmetric] e_def [symmetric] v_def [symmetric] at
    using len others acc rej by blast
qed

theorem explore_records_witness:
  "length (variants initial) = num_cells \<and>
   exploration_count initial \<noteq> num_explorations_before_optimize \<and>
   (ucast (9 - 5 :: UInt32) :: size_t) < 30000 \<and>
   map (\<lambda>v. (time v, bytes v, count v)) (variants (snd (explore initial 30000 5 9))) =
     [(4, 30000, 1), (0, 0, 0), (0, 0, 0), (0, 0, 0), (0, 0, 0), (0, 0, 0), (0, 0, 0), (0, 0, 0),
      (0, 0, 0), (0, 0, 0), (0, 0, 0), (0, 0, 0), (0, 0, 0), (0, 0, 0), (0, 0, 0), (0, 0, 0)] \<and>
   \<not> (ucast (30000 - 0 :: UInt32) :: size_t) < 30000 \<and>
   variants (snd (explore initial 30000 0 30000)) = variants initial"
  using explore_records [where s = initial and size' = 30000 and ?time1.0 = 5 and ?time2.0 = 9]
    explore_records [where s = initial and size' = 30000 and ?time1.0 = 0 and ?time2.0 = 30000]
  by (simp add: explore_unfold record_sample_def Let_def initial_def Variant_def num_cells_def
      num_explorations_before_optimize_def hash_index_0)

text \<open>
  C2 as stated fails twice. An accepted sample with elapsed time 0 (both clock readings
  equal) leaves the time of its variant where it was; and the exploration that reoptimizes
  smooths every variant, also when its own sample is rejected.
\<close>

theorem explore_records_counterexample:
  "(ucast (7 - 7 :: UInt32) :: size_t) < 30000 \<and>
   time (variants (snd (explore initial 30000 7 7)) ! 0) = time (variants initial ! 0) \<and>
   \<not> (ucast (30000 - 0 :: UInt32) :: size_t) < 30000 \<and>
   variants (snd (explore (initial\<lparr>exploration_count := 256\<rparr>) 30000 0 30000)) \<noteq>
     variants (initial\<lparr>exploration_count := 256\<rparr>)"
  by (simp add: explore_unfold reoptimize_variants Let_def initial_def Variant_def num_cells_def
      num_explorations_before_optimize_def hash_index_0 hash_index_256 record_sample_def smooth_def)

subsection \<open>C3\<close>

text \<open>
  C3: a call decides between exploitation and exploration from the value the call counter had
  before its increment: it exploits if that value modulo 256 is below the threshold and
  explores otherwise. The threshold of the initial dispatcher is 0, so every call of a
  sequential execution explores as long as no call has reoptimized (a reoptimization is the
  only event that prints), and a call that does not reoptimize leaves the threshold as it was.
\<close>

theorem call_decision:
  "call s size' time1 time2 =
     (if call_count s mod 256 < exploration_probability_threshold s
      then (\<lparr>invoked = selected_variant s, explored = None, printed = None\<rparr>,
            s\<lparr>call_count := call_count s + 1\<rparr>)
      else explore (s\<lparr>call_count := call_count s + 1\<rparr>) size' time1 time2) \<and>
   (explored (fst (call s size' time1 time2)) = None \<longleftrightarrow>
      call_count s mod 256 < exploration_probability_threshold s) \<and>
   exploration_probability_threshold initial = 0 \<and>
   ((\<forall>out \<in> set (fst (run initial inputs)). printed out = None) \<longrightarrow>
      (\<forall>out \<in> set (fst (run initial inputs)). explored out \<noteq> None)) \<and>
   (printed (fst (call s size' time1 time2)) = None \<longrightarrow>
      exploration_probability_threshold (snd (call s size' time1 time2)) =
        exploration_probability_threshold s)"
proof -
  have i: "exploration_probability_threshold initial = 0" by (simp add: initial_def)
  show ?thesis
    using run_explores_until_reoptimization [OF i, of inputs] call_keeps_threshold [of s size' time1 time2]
    by (simp add: call_unfold [symmetric] i) (simp add: call_unfold explore_outcome)
qed

theorem call_decision_witness:
  "map printed (fst (run initial [(30000, 0, 1), (30000, 5, 5)])) = [None, None] \<and>
   map explored (fst (run initial [(30000, 0, 1), (30000, 5, 5)])) = [Some 0, Some 6] \<and>
   printed (fst (call initial 30000 0 1)) = None \<and>
   exploration_probability_threshold (snd (call initial 30000 0 1)) =
     exploration_probability_threshold initial \<and>
   fst (run initial [(30000, 0, 1), (30000, 5, 5)]) =
     [\<lparr>invoked = memcpy, explored = Some 0, printed = None\<rparr>,
      \<lparr>invoked = glibc_memcpy_ssse3, explored = Some 6, printed = None\<rparr>]"
  using call_decision [where s = initial and size' = 30000 and ?time1.0 = 0 and ?time2.0 = 1
      and inputs = "[(30000, 0, 1), (30000, 5, 5)]"]
  by (simp add: call_unfold explore_unfold Let_def initial_def Variant_def hash_index_0 hash_index_1
      num_explorations_before_optimize_def)

subsection \<open>C4\<close>

text \<open>
  C4, as the code has it. Nothing seeds the statistics: right after the construction of the
  registry every variant has time, bytes and count 0, and \<^verbatim>\<open>score()\<close> divides zero by zero
  there (its result is NaN). The score is a number, and not negative, exactly when bytes and
  count are both nonzero; otherwise it is NaN or infinity. It is a number after every
  \<^verbatim>\<open>smooth()\<close>, which leaves each field at 1 or more.
\<close>

theorem score_defined_iff:
  "(\<forall>v \<in> set (variants initial). time v = 0 \<and> bytes v = 0 \<and> count v = 0 \<and> score v = NaN) \<and>
   ((\<exists>r. score v = Num r) \<longleftrightarrow> bytes v \<noteq> 0 \<and> count v \<noteq> 0) \<and>
   (bytes v \<noteq> 0 \<and> count v \<noteq> 0 \<longrightarrow> (\<exists>r. score v = Num r \<and> 0 \<le> r)) \<and>
   (bytes v = 0 \<or> count v = 0 \<longrightarrow> score v = NaN \<or> score v = PosInf) \<and>
   (\<exists>r. score (smooth v) = Num r)"
proof -
  have a: "\<forall>v \<in> set (variants initial). time v = 0 \<and> bytes v = 0 \<and> count v = 0 \<and> score v = NaN"
    using score_initial by (auto simp: initial_def Variant_def)
  have nz: "bytes (smooth v) \<noteq> 0 \<and> count (smooth v) \<noteq> 0"
    using half_succ_ge_1 [of "bytes v"] half_succ_ge_1 [of "count v"]
    by (auto simp: smooth_fields)
  have b: "(\<exists>r. score w = Num r) \<longleftrightarrow> bytes w \<noteq> 0 \<and> count w \<noteq> 0" for w
    using score_number [of w] score_not_number [of w] by auto
  show ?thesis
    using a b [of v] b [of "smooth v"] nz score_number [of v] score_not_number [of v]
    by blast
qed

theorem score_defined_iff_witness:
  "variants initial ! 3 \<in> set (variants initial) \<and>
   time (variants initial ! 3) = 0 \<and> bytes (variants initial ! 3) = 0 \<and>
   count (variants initial ! 3) = 0 \<and> score (variants initial ! 3) = NaN \<and>
   bytes \<lparr>func = memcpy, time = 1, bytes = 2, count = 1, kind = 1\<rparr> \<noteq> 0 \<and>
   count \<lparr>func = memcpy, time = 1, bytes = 2, count = 1, kind = 1\<rparr> \<noteq> 0 \<and>
   score \<lparr>func = memcpy, time = 1, bytes = 2, count = 1, kind = 1\<rparr> = Num 1"
  using score_defined_iff [where v = "\<lparr>func = memcpy, time = 1, bytes = 2, count = 1, kind = 1\<rparr>"]
  by (simp add: initial_def Variant_def score_all_zero score_1_2_1)

text \<open>
  C4 as stated fails: the first variant of the initial registry has count, bytes and time 0,
  both divisors of its score are zero and the score is NaN.
\<close>

theorem score_defined_iff_counterexample:
  "time (variants initial ! 0) = 0 \<and> bytes (variants initial ! 0) = 0 \<and>
   count (variants initial ! 0) = 0 \<and> score (variants initial ! 0) = NaN \<and>
   to_double (bytes (variants initial ! 0)) = Num 0 \<and>
   dsqrt (to_double (count (variants initial ! 0))) = Num 0"
  by (simp add: initial_def Variant_def score_all_zero to_double_0 round_double_0)

subsection \<open>C5\<close>

text \<open>
  C5, as the code has it: an exploration hashes the value the exploration counter had before
  its increment (multiply by \<open>0xff51afd7ed558ccd\<close>, then xor with the product shifted right by
  33), reduces the hash modulo 16, and times and invokes the variant at that index; the
  counter is one more afterwards unless the exploration reoptimizes.
\<close>

theorem explore_index:
  "explored (fst (explore s size' time1 time2)) = Some (hash_index (exploration_count s)) \<and>
   invoked (fst (explore s size' time1 time2)) = func (variants s ! hash_index (exploration_count s)) \<and>
   hash_index c = unat (c * 0xff51afd7ed558ccd XOR drop_bit 33 (c * 0xff51afd7ed558ccd)) mod 16 \<and>
   hash_index c < 16 \<and>
   (exploration_count s \<noteq> 256 \<longrightarrow>
      exploration_count (snd (explore s size' time1 time2)) = exploration_count s + 1)"
  using hash_index_less [of c]
  by (simp add: explore_outcome explore_no_reoptimization num_explorations_before_optimize_def
      num_cells_def) (simp add: hash_index_def Let_def num_cells_def)

theorem explore_index_witness:
  "exploration_count initial \<noteq> 256 \<and>
   explored (fst (explore initial 30000 0 1)) = Some 0 \<and>
   invoked (fst (explore initial 30000 0 1)) = memcpy \<and>
   exploration_count (snd (explore initial 30000 0 1)) = 1"
  using explore_index [where s = initial and size' = 30000 and ?time1.0 = 0 and ?time2.0 = 1 and c = 0]
  by (simp add: initial_def Variant_def hash_index_0)

text \<open>
  C5 as stated fails: the first exploration of the initial dispatcher times the variant at
  index 0, the hash of the old counter value 0, and not the one at index 6, the hash of the
  new value 1.
\<close>

theorem explore_index_counterexample:
  "explored (fst (explore initial 30000 0 1)) \<noteq>
     Some (hash_index (exploration_count (snd (explore initial 30000 0 1))))"
  by (simp add: explore_outcome explore_no_reoptimization initial_def hash_index_0 hash_index_1
      num_explorations_before_optimize_def)

subsection \<open>C6\<close>

text \<open>
  C6: one decay step (\<^verbatim>\<open>smooth()\<close>) maps the fields \<open>(t, b, c)\<close> of a variant to
  \<open>(1 + t div 2, 1 + b div 2, 1 + c div 2)\<close> with floor division on the unsigned values (the sum
  does not wrap), every field of the result is at least 1, and a reoptimization applies the
  step to every variant: the variants after a reoptimizing exploration are the smoothed
  variants as they were after the sample of that exploration.
\<close>

theorem smooth_decay:
  "unat (time (smooth v)) = 1 + unat (time v) div 2 \<and>
   unat (bytes (smooth v)) = 1 + unat (bytes v) div 2 \<and>
   unat (count (smooth v)) = 1 + unat (count v) div 2 \<and>
   1 \<le> time (smooth v) \<and> 1 \<le> bytes (smooth v) \<and> 1 \<le> count (smooth v) \<and>
   (length (variants s) = num_cells \<and> exploration_count s = num_explorations_before_optimize \<longrightarrow>
      variants (snd (explore s size' time1 time2)) =
        map smooth ((variants s)[hash_index (exploration_count s) :=
          record_sample (time2 - time1) size' (variants s ! hash_index (exploration_count s))]))"
  by (simp add: smooth_fields unat_half_succ half_succ_ge_1 explore_unfold Let_def reoptimize_variants)

theorem smooth_decay_witness:
  "length (variants (initial\<lparr>exploration_count := 256\<rparr>)) = num_cells \<and>
   exploration_count (initial\<lparr>exploration_count := 256\<rparr>) = num_explorations_before_optimize \<and>
   map (\<lambda>v. (time v, bytes v, count v))
     (variants (snd (explore (initial\<lparr>exploration_count := 256\<rparr>) 30000 0 1))) =
     [(1, 1, 1), (1, 1, 1), (1, 1, 1), (1, 1, 1), (1, 1, 1), (1, 1, 1), (1, 15001, 1), (1, 1, 1),
      (1, 1, 1), (1, 1, 1), (1, 1, 1), (1, 1, 1), (1, 1, 1), (1, 1, 1), (1, 1, 1), (1, 1, 1)]"
  using smooth_decay [where v = "Variant 1 memcpy" and s = "initial\<lparr>exploration_count := 256\<rparr>"
      and size' = 30000 and ?time1.0 = 0 and ?time2.0 = 1]
  by (simp add: initial_def Variant_def num_cells_def num_explorations_before_optimize_def
      hash_index_256 record_sample_def smooth_def)

subsection \<open>C7\<close>

text \<open>
  C7: a reoptimization maps the threshold \<open>t\<close> to
  \<open>min 255 \<lfloor>256 * (1 - (1 - t / 256) / 1.5)\<rfloor>\<close>, which never exceeds 255 and is at least \<open>t\<close>
  for every \<open>t\<close> up to 255; a call changes the threshold only by that map, when it
  reoptimizes. So along every sequential execution from the initial dispatcher the threshold
  never decreases and never exceeds 255 (it is unsigned: it is never negative).
\<close>

theorem threshold_monotone:
  "unat (new_threshold t) = min 255 (nat \<lfloor>256 * (1 - (1 - real (unat t) / 256) / 1.5)\<rfloor>) \<and>
   new_threshold t \<le> 255 \<and>
   (t \<le> 255 \<longrightarrow> t \<le> new_threshold t) \<and>
   exploration_probability_threshold (snd (call s size' time1 time2)) =
     (if printed (fst (call s size' time1 time2)) = None
      then exploration_probability_threshold s
      else new_threshold (exploration_probability_threshold s)) \<and>
   exploration_probability_threshold (snd (run initial xs)) \<le>
     exploration_probability_threshold (snd (run initial (xs @ ys))) \<and>
   exploration_probability_threshold (snd (run initial (xs @ ys))) \<le> 255"
proof -
  have i: "exploration_probability_threshold initial \<le> 255" by (simp add: initial_def)
  from run_threshold_grows [OF i, of xs]
  have "exploration_probability_threshold (snd (run initial xs)) \<le> 255" by simp
  from run_threshold_grows [OF this, of ys] show ?thesis
    using new_threshold_ge [of t]
    by (simp add: run_append new_threshold_formula new_threshold_le call_threshold)
qed

theorem threshold_monotone_witness:
  "(0 :: size_t) \<le> 255 \<and> new_threshold 0 = 85 \<and> (0 :: size_t) \<le> new_threshold 0 \<and>
   (85 :: size_t) \<le> 255 \<and> new_threshold 85 = 142 \<and> (85 :: size_t) \<le> new_threshold 85 \<and>
   (254 :: size_t) \<le> 255 \<and> new_threshold 254 = 254"
  using threshold_monotone [where t = 0 and s = initial and xs = "[]" and ys = "[]"]
    threshold_monotone [where t = 85 and s = initial and xs = "[]" and ys = "[]"]
    threshold_monotone [where t = 254 and s = initial and xs = "[]" and ys = "[]"]
  by (simp add: word_unat_eq_iff new_threshold_closed)

subsection \<open>C8\<close>

text \<open>
  C8: a call in exploitation mode changes nothing but the call counter: no variant's time,
  bytes or count, no exploration counter, no threshold, no selected variant. It invokes the
  selected variant it loaded and times nothing.
\<close>

theorem exploit_frame:
  "call_count s mod probability_distribution_buckets < exploration_probability_threshold s \<Longrightarrow>
   call s size' time1 time2 =
     (\<lparr>invoked = selected_variant s, explored = None, printed = None\<rparr>,
      s\<lparr>call_count := call_count s + 1\<rparr>)"
  by (simp add: call_def Let_def)

theorem exploit_frame_witness:
  "call_count (initial\<lparr>exploration_probability_threshold := 85\<rparr>) mod probability_distribution_buckets
     < exploration_probability_threshold (initial\<lparr>exploration_probability_threshold := 85\<rparr>) \<and>
   call (initial\<lparr>exploration_probability_threshold := 85\<rparr>) 30000 0 1 =
     (\<lparr>invoked = memcpy, explored = None, printed = None\<rparr>,
      initial\<lparr>exploration_probability_threshold := 85, call_count := 1\<rparr>)"
  using exploit_frame [where s = "initial\<lparr>exploration_probability_threshold := 85\<rparr>"
      and size' = 30000 and ?time1.0 = 0 and ?time2.0 = 1]
  by (simp add: initial_def probability_distribution_buckets_def)

subsection \<open>C9\<close>

text \<open>
  C9, as the code has it. After the first accepted sample of a variant, count and bytes are
  at least 1 and stay so under every later sequence of samples and decays in which no 64-bit
  sum wraps. The time is at least 1 after them if it was nonzero before, or that first sample
  or a later accepted one had a nonzero elapsed time, or a decay is among the later
  operations.
\<close>

theorem fields_stay_positive:
  assumes "ucast time' < size'"
    and "no_wrap v (Record time' size' # ops)"
  shows "1 \<le> count (apply_ops v (Record time' size' # ops)) \<and>
         1 \<le> bytes (apply_ops v (Record time' size' # ops)) \<and>
         (0 < time' \<or> 1 \<le> time v \<or> Smooth \<in> set ops \<or>
          (\<exists>e sz. Record e sz \<in> set ops \<and> ucast e < sz \<and> 0 < e) \<longrightarrow>
            1 \<le> time (apply_ops v (Record time' size' # ops)))"
proof -
  let ?v = "record_sample time' size' v"
  from assms have rest: "no_wrap ?v ops"
    and fit: "unat (count v) + 1 < 2 ^ 64" "unat (bytes v) + unat size' < 2 ^ 64"
      "unat (time v) + unat time' < 2 ^ 64"
    by simp_all
  have nz: "1 \<le> size'" using assms(1) by (auto simp: word_le_nat_alt word_less_nat_alt)
  have c: "1 \<le> count ?v"
    using word_ge_1_add [of "count v" 1] fit by (simp add: record_sample_accepted [OF assms(1)])
  have b: "1 \<le> bytes ?v"
    using word_ge_1_add [of "bytes v" size'] fit nz by (simp add: record_sample_accepted [OF assms(1)])
  have t: "1 \<le> time ?v" if "0 < time' \<or> 1 \<le> time v"
  proof -
    from that have "1 \<le> time v \<or> 1 \<le> (ucast time' :: size_t)"
      by (auto simp: word_le_nat_alt word_less_nat_alt unat_ucast_32_64)
    then show ?thesis
      using word_ge_1_add [of "time v" "ucast time'"] fit
      by (simp add: record_sample_accepted [OF assms(1)] unat_ucast_32_64)
  qed
  have later: "1 \<le> time (apply_ops ?v ops)"
    if "\<exists>e sz. Record e sz \<in> set ops \<and> ucast e < sz \<and> 0 < e"
    using that apply_ops_time_after_record [OF rest] by blast
  show ?thesis
    using apply_ops_keep_positive [OF rest] apply_ops_time_after_smooth [OF rest] c b t later
    by (auto simp: apply_ops_Cons)
qed

theorem fields_stay_positive_witness:
  "(ucast (4 :: UInt32) :: size_t) < 30000 \<and>
   no_wrap (Variant 1 memcpy) [Record 4 30000, Smooth, Record 0 40000, Record 9 8] \<and>
   apply_ops (Variant 1 memcpy) [Record 4 30000, Smooth, Record 0 40000, Record 9 8] =
     \<lparr>func = memcpy, time = 3, bytes = 55001, count = 2, kind = 1\<rparr>"
  using fields_stay_positive [where time' = 4 and size' = 30000 and v = "Variant 1 memcpy"
      and ops = "[Smooth, Record 0 40000, Record 9 8]"]
  by (simp add: apply_ops_def record_sample_def smooth_def Variant_def)

text \<open>
  C9 as stated fails: a first accepted sample with elapsed time 0 leaves the time of the
  variant at 0, and so does every further such sample.
\<close>

theorem fields_stay_positive_counterexample:
  "(ucast (0 :: UInt32) :: size_t) < 30000 \<and>
   \<not> 1 \<le> time (apply_ops (Variant 1 memcpy) [Record 0 30000]) \<and>
   \<not> 1 \<le> time (apply_ops (Variant 1 memcpy) [Record 0 30000, Record 0 30000])"
  by (simp add: apply_ops_def record_sample_def Variant_def)

subsection \<open>C10\<close>



end
